theory Spec2Isabelle
  imports Complex_Main
begin

section \<open>Heart Tap Frenzy: the level session of \<^verbatim>\<open>src/app/index.tsx\<close>\<close>

text \<open>
  The component \<^verbatim>\<open>Index\<close> keeps its session in React state (\<^verbatim>\<open>phase\<close>,
  \<^verbatim>\<open>levelIndex\<close>, \<^verbatim>\<open>score\<close>, \<^verbatim>\<open>timeLeft\<close>) and in refs
  (\<^verbatim>\<open>heartsRef\<close>, \<^verbatim>\<open>spawnTimer\<close>, \<^verbatim>\<open>tickTimer\<close>). The handlers are
  embedded as functions on a record of that state. What the handlers reach only through
  a handle is kept in explicit stores: the interval timers and time-outs of the
  JavaScript runtime, and the \<^verbatim>\<open>Animated.timing\<close> objects of the hearts.

  Conventions of the embedding:
  \<^item> a \<^verbatim>\<open>setX(v)\<close> of React state is the update of the field; the handlers never
    read a state variable after setting it, except \<^verbatim>\<open>score\<close> in \<^verbatim>\<open>endLevel\<close>,
    which reads the variable of the render the closure was created in (see there);
  \<^item> \<^verbatim>\<open>Date.now()\<close>, \<^verbatim>\<open>uid()\<close> and the values of \<^verbatim>\<open>Math.random()\<close> are
    arguments of the handler that reads them;
  \<^item> an \<^verbatim>\<open>await\<close> of a haptic call resumes before the next event is delivered
    (an \<^verbatim>\<open>await\<close> of \<^verbatim>\<open>undefined\<close>, the case without expo-haptics, resumes in a
    microtask), so a handler is one step; the haptic calls are counted;
  \<^item> the fields \<^verbatim>\<open>x\<close> and \<^verbatim>\<open>y\<close> of a heart are floating-point screen
    positions read by the view only; they are left out;
  \<^item> the clean-up of \<^verbatim>\<open>useEffect\<close> runs when the component is unmounted, after
    which nothing is delivered; it is not an event of the session.
\<close>

subsection \<open>Level catalog\<close>

record Level =
  level :: int
  durationMs :: int
  target :: int
  spawnEveryMs :: int
  fallMs :: int

definition LEVELS :: "Level list" where
  "LEVELS =
    [ \<lparr>level = 1, durationMs = 20000, target = 18, spawnEveryMs = 700, fallMs = 2800\<rparr>,
      \<lparr>level = 2, durationMs = 20000, target = 22, spawnEveryMs = 600, fallMs = 2400\<rparr>,
      \<lparr>level = 3, durationMs = 22000, target = 26, spawnEveryMs = 520, fallMs = 2100\<rparr> ]"

text \<open>\<^verbatim>\<open>LEVELS[idx]\<close>: \<^verbatim>\<open>undefined\<close> (here \<open>None\<close>) outside the array.\<close>

definition level_at :: "int \<Rightarrow> Level option" where
  "level_at idx =
     (if 0 \<le> idx \<and> idx < int (length LEVELS) then Some (LEVELS ! nat idx) else None)"

text \<open>
  \<^verbatim>\<open>Math.ceil(a / 1000)\<close> for an integer \<^verbatim>\<open>a\<close> of milliseconds. The quotient
  of two integers of this size is rounded well inside the gap to the next whole number,
  so the floating-point ceiling is the integer one.
\<close>

definition ceilSec :: "int \<Rightarrow> int" where
  "ceilSec a = - ((- a) div 1000)"

subsection \<open>State\<close>

datatype Phase = Intro | Playing | Reward | Proposal

text \<open>
  An \<^verbatim>\<open>Animated.timing(...)\<close> object after \<^verbatim>\<open>start(cb)\<close>. React Native calls
  \<^verbatim>\<open>cb\<close> once: with \<^verbatim>\<open>finished: true\<close> when the value reaches \<^verbatim>\<open>toValue\<close>,
  with \<^verbatim>\<open>finished: false\<close> when \<^verbatim>\<open>stop()\<close> comes first. \<open>a_owner\<close> is the
  \<^verbatim>\<open>heart.id\<close> the callback of \<^verbatim>\<open>spawnHeart\<close> closes over.
\<close>

datatype AnimStatus = Running | Stopped | Finished

record Anim =
  a_status :: AnimStatus
  a_owner :: string
  a_duration :: int

text \<open>The type \<^verbatim>\<open>Heart\<close>; \<open>hanim\<close> is the handle of its animation.\<close>

record Heart =
  hid :: string
  hsize :: int
  hanim :: nat

text \<open>
  The two callbacks given to \<^verbatim>\<open>setInterval\<close> in \<^verbatim>\<open>startLevel\<close>, with what they
  close over: \<open>TickCb idx startAt sc\<close> is the countdown tick, where \<open>sc\<close> is the
  \<^verbatim>\<open>score\<close> of the render whose \<^verbatim>\<open>endLevel\<close> the callback calls;
  \<open>SpawnCb idx\<close> is the spawner. A stored interval is its delay and its callback.
\<close>

datatype Callback = TickCb int int int | SpawnCb int

type_synonym Interval = "int \<times> Callback"

record Session =
  phase :: Phase
  levelIndex :: int
  score :: int
  timeLeft :: int
  hearts :: "Heart list"
  renders :: nat
  spawnTimer :: "nat option"
  tickTimer :: "nat option"
  intervals :: "nat \<Rightarrow> Interval option"
  timeouts :: "nat list"
  nextTimer :: nat
  anims :: "nat \<Rightarrow> Anim option"
  nextAnim :: nat
  softHaptics :: nat
  successHaptics :: nat

text \<open>The state of the first render: the \<^verbatim>\<open>useState\<close> and \<^verbatim>\<open>useRef\<close> defaults.
  Timer handles are positive numbers, so a handle in a ref is truthy.\<close>

definition initial :: Session where
  "initial =
     \<lparr>phase = Intro, levelIndex = 0, score = 0, timeLeft = 0, hearts = [], renders = 0,
      spawnTimer = None, tickTimer = None, intervals = (\<lambda>_. None), timeouts = [],
      nextTimer = 1, anims = (\<lambda>_. None), nextAnim = 0,
      softHaptics = 0, successHaptics = 0\<rparr>"

text \<open>A handler returns, or throws the \<^verbatim>\<open>TypeError\<close> of reading a property of
  \<^verbatim>\<open>undefined\<close>; what it did before the throw stays done.\<close>

datatype Signal = Completed | TypeError

subsection \<open>Runtime: timers and animations\<close>

definition clearInterval :: "nat \<Rightarrow> Session \<Rightarrow> Session" where
  "clearInterval h s = s\<lparr>intervals := (intervals s)(h := None)\<rparr>"

definition setInterval :: "Callback \<Rightarrow> int \<Rightarrow> Session \<Rightarrow> nat \<times> Session" where
  "setInterval cb delay s =
     (nextTimer s,
      s\<lparr>intervals := (intervals s)(nextTimer s \<mapsto> (delay, cb)),
        nextTimer := nextTimer s + 1\<rparr>)"

text \<open>\<^verbatim>\<open>setTimeout(() => clearHearts(), 250)\<close>, the only time-out of the file: the
  pending ones are kept by handle. Nothing in the file clears one.\<close>

definition setTimeout :: "Session \<Rightarrow> Session" where
  "setTimeout s = s\<lparr>timeouts := timeouts s @ [nextTimer s], nextTimer := nextTimer s + 1\<rparr>"

text \<open>\<^verbatim>\<open>anim.stop()\<close>: a running animation is stopped and its callback is called
  with \<^verbatim>\<open>finished: false\<close>, where it returns at once.\<close>

definition animStop :: "nat \<Rightarrow> Session \<Rightarrow> Session" where
  "animStop a s =
     (case anims s a of
        None \<Rightarrow> s
      | Some an \<Rightarrow>
          if a_status an = Running
          then s\<lparr>anims := (anims s)(a \<mapsto> an\<lparr>a_status := Stopped\<rparr>)\<rparr>
          else s)"

subsection \<open>Handlers\<close>

definition clearTimers :: "Session \<Rightarrow> Session" where
  "clearTimers s =
     (let s1 = (case spawnTimer s of Some h \<Rightarrow> clearInterval h s | None \<Rightarrow> s);
          s2 = (case tickTimer s1 of Some h \<Rightarrow> clearInterval h s1 | None \<Rightarrow> s1)
      in s2\<lparr>spawnTimer := None, tickTimer := None\<rparr>)"

definition clearHearts :: "Session \<Rightarrow> Session" where
  "clearHearts s =
     (let s1 = fold (\<lambda>h. animStop (hanim h)) (hearts s) s
      in s1\<lparr>hearts := [], renders := renders s1 + 1\<rparr>)"

text \<open>
  \<^verbatim>\<open>endLevel(idx)\<close>. The first argument \<open>sc\<close> is the value of the variable
  \<^verbatim>\<open>score\<close> that this \<^verbatim>\<open>endLevel\<close> closes over: each render of \<^verbatim>\<open>Index\<close>
  creates its own \<^verbatim>\<open>endLevel\<close>, over the \<^verbatim>\<open>score\<close> of that render.
\<close>

definition endLevel :: "int \<Rightarrow> int \<Rightarrow> Session \<Rightarrow> Signal \<times> Session" where
  "endLevel sc idx s =
     (let s1 = clearTimers s in
      case level_at idx of
        None \<Rightarrow> (TypeError, s1)
      | Some lv \<Rightarrow>
          let passed = (sc \<ge> target lv);
              s2 = (if passed then s1\<lparr>successHaptics := successHaptics s1 + 1\<rparr> else s1);
              s3 = setTimeout s2
          in if \<not> passed then (Completed, s3\<lparr>phase := Reward\<rparr>)
             else if idx < int (length LEVELS) - 1 then (Completed, s3\<lparr>phase := Reward\<rparr>)
             else (Completed, s3\<lparr>phase := Proposal\<rparr>))"

text \<open>
  \<^verbatim>\<open>startLevel(idx)\<close>, called at time \<open>now\<close>. The tick callback calls the
  \<^verbatim>\<open>endLevel\<close> of the render that \<^verbatim>\<open>startLevel\<close> itself belongs to, whose
  \<^verbatim>\<open>score\<close> is the score at the call (\<^verbatim>\<open>setScore(0)\<close> shows in later renders
  only): the callback is \<open>TickCb idx now (score s)\<close>.
\<close>

definition startLevel :: "int \<Rightarrow> int \<Rightarrow> Session \<Rightarrow> Signal \<times> Session" where
  "startLevel idx now s =
     (let s1 = clearHearts (clearTimers s);
          s2 = s1\<lparr>levelIndex := idx, score := 0\<rparr>
      in case level_at idx of
           None \<Rightarrow> (TypeError, s2)
         | Some lv \<Rightarrow>
             let s3 = s2\<lparr>timeLeft := ceilSec (durationMs lv), phase := Playing\<rparr>;
                 (h1, s4) = setInterval (TickCb idx now (score s)) 250 s3;
                 s5 = s4\<lparr>tickTimer := Some h1\<rparr>;
                 (h2, s6) = setInterval (SpawnCb idx) (spawnEveryMs lv) s5
             in (Completed, s6\<lparr>spawnTimer := Some h2\<rparr>))"

text \<open>The body of the countdown interval, run at time \<open>now\<close>.\<close>

definition tick :: "int \<Rightarrow> int \<Rightarrow> int \<Rightarrow> int \<Rightarrow> Session \<Rightarrow> Signal \<times> Session" where
  "tick idx startAt sc now s =
     (case level_at idx of
        None \<Rightarrow> (TypeError, s)
      | Some lv \<Rightarrow>
          let elapsed = now - startAt;
              left = max 0 (ceilSec (durationMs lv - elapsed));
              s1 = s\<lparr>timeLeft := left\<rparr>
          in if left \<le> 0 then endLevel sc idx s1 else (Completed, s1))"

text \<open>
  \<^verbatim>\<open>spawnHeart(idx)\<close>. \<open>u\<close> is the result of \<^verbatim>\<open>uid()\<close>, \<open>r1\<close> is
  \<^verbatim>\<open>Math.floor(Math.random() * 22)\<close> and \<open>r2\<close> is
  \<^verbatim>\<open>Math.floor(Math.random() * 600)\<close>.
\<close>

definition spawnHeart :: "int \<Rightarrow> string \<Rightarrow> int \<Rightarrow> int \<Rightarrow> Session \<Rightarrow> Signal \<times> Session" where
  "spawnHeart idx u r1 r2 s =
     (let size = 28 + r1;
          heart = \<lparr>hid = u, hsize = size, hanim = nextAnim s\<rparr>
      in case level_at idx of
           None \<Rightarrow> (TypeError, s)
         | Some lv \<Rightarrow>
             let duration = fallMs lv + r2
             in (Completed,
                 s\<lparr>hearts := hearts s @ [heart], renders := renders s + 1,
                   anims := (anims s)(nextAnim s \<mapsto>
                      \<lparr>a_status = Running, a_owner = u, a_duration = duration\<rparr>),
                   nextAnim := nextAnim s + 1\<rparr>))"

text \<open>The animation with handle \<open>a\<close> reaches its end value: if it is still running,
  its callback runs with \<^verbatim>\<open>finished: true\<close>.\<close>

definition animEnd :: "nat \<Rightarrow> Session \<Rightarrow> Session" where
  "animEnd a s =
     (case anims s a of
        None \<Rightarrow> s
      | Some an \<Rightarrow>
          if a_status an = Running
          then s\<lparr>anims := (anims s)(a \<mapsto> an\<lparr>a_status := Finished\<rparr>),
                 hearts := filter (\<lambda>h. hid h \<noteq> a_owner an) (hearts s),
                 renders := renders s + 1\<rparr>
          else s)"

definition onTapHeart :: "string \<Rightarrow> Session \<Rightarrow> Session" where
  "onTapHeart i s =
     (let s0 = s\<lparr>softHaptics := softHaptics s + 1\<rparr>
      in case find (\<lambda>x. hid x = i) (hearts s0) of
           None \<Rightarrow> s0
         | Some h \<Rightarrow>
             let s1 = animStop (hanim h) s0
             in s1\<lparr>hearts := filter (\<lambda>x. hid x \<noteq> i) (hearts s1),
                   score := score s1 + 1,
                   renders := renders s1 + 1\<rparr>)"

text \<open>The \<^verbatim>\<open>onPress\<close> of "Quit" and of "Back to Start".\<close>

definition quit :: "Session \<Rightarrow> Session" where
  "quit s = (clearHearts (clearTimers s))\<lparr>phase := Intro\<rparr>"

text \<open>The \<^verbatim>\<open>onPress\<close> of "Finish": \<^verbatim>\<open>endLevel(levelIndex)\<close> of the current
  render, so over the current score.\<close>

definition finish :: "Session \<Rightarrow> Signal \<times> Session" where
  "finish s = endLevel (score s) (levelIndex s) s"

subsection \<open>The view and the events\<close>

text \<open>
  The render function shows one screen per phase, and a press can only reach the handler
  of a button that is on the screen. On the reward screen \<^verbatim>\<open>success\<close> is
  \<^verbatim>\<open>score >= current.target\<close> over the current state; the screen cannot be drawn
  when \<^verbatim>\<open>current\<close> is \<^verbatim>\<open>undefined\<close>.
\<close>

definition success :: "Session \<Rightarrow> bool" where
  "success s =
     (case level_at (levelIndex s) of None \<Rightarrow> False | Some lv \<Rightarrow> score s \<ge> target lv)"

definition rewardView :: "Session \<Rightarrow> bool" where
  "rewardView s = (phase s = Reward \<and> level_at (levelIndex s) \<noteq> None)"

text \<open>
  What the event loop can deliver. A press carries the \<^verbatim>\<open>Date.now()\<close> its handler
  reads; \<open>ClockFire h t\<close> and \<open>SpawnFire h u r1 r2\<close> are firings of the interval with
  handle \<open>h\<close>, \<open>TimeoutFire h\<close> is the firing of a pending time-out, \<open>AnimEnd a\<close> is
  animation \<open>a\<close> reaching its end value.
\<close>

datatype Event =
    PressStart int
  | PressNext int
  | PressRetry int
  | PressOpen
  | PressBack
  | PressYes
  | PressQuit
  | PressFinish
  | Tap string
  | ClockFire nat int
  | SpawnFire nat string int int
  | AnimEnd nat
  | TimeoutFire nat

fun step :: "Event \<Rightarrow> Session \<Rightarrow> Session" where
  "step (PressStart t) s =
     (if phase s = Intro then snd (startLevel 0 t s) else s)"
| "step (PressNext t) s =
     (if rewardView s \<and> success s \<and> levelIndex s < int (length LEVELS) - 1
      then snd (startLevel (levelIndex s + 1) t s) else s)"
| "step (PressRetry t) s =
     (if rewardView s \<and> \<not> success s then snd (startLevel (levelIndex s) t s) else s)"
| "step PressOpen s =
     (if rewardView s \<and> success s \<and> \<not> levelIndex s < int (length LEVELS) - 1
      then s\<lparr>phase := Proposal\<rparr> else s)"
| "step PressBack s =
     (if rewardView s then quit s else s)"
| "step PressYes s =
     (if phase s = Proposal then s\<lparr>successHaptics := successHaptics s + 1\<rparr> else s)"
| "step PressQuit s =
     (if phase s = Playing then quit s else s)"
| "step PressFinish s =
     (if phase s = Playing then snd (finish s) else s)"
| "step (Tap i) s =
     (if phase s = Playing then onTapHeart i s else s)"
| "step (ClockFire h t) s =
     (case intervals s h of
        Some (d, TickCb idx startAt sc) \<Rightarrow> snd (tick idx startAt sc t s)
      | _ \<Rightarrow> s)"
| "step (SpawnFire h u r1 r2) s =
     (case intervals s h of
        Some (d, SpawnCb idx) \<Rightarrow> snd (spawnHeart idx u r1 r2 s)
      | _ \<Rightarrow> s)"
| "step (AnimEnd a) s = animEnd a s"
| "step (TimeoutFire h) s =
     (if h \<in> set (timeouts s)
      then clearHearts (s\<lparr>timeouts := removeAll h (timeouts s)\<rparr>) else s)"

definition run :: "Session \<Rightarrow> Event list \<Rightarrow> Session" where
  "run s evs = fold step evs s"

text \<open>
  The session after the level in play has been resolved by \<^verbatim>\<open>endLevel(levelIndex)\<close>
  whose closure holds the score \<open>sc\<close>: "Finish" resolves with the current score, the
  countdown with the score its callback has captured.
\<close>

definition resolved :: "int \<Rightarrow> Session \<Rightarrow> Session" where
  "resolved sc s = snd (endLevel sc (levelIndex s) s)"

subsection \<open>Runs and what is observed of them\<close>



text \<open>\<open>spawnsOf i e\<close>: the event is a spawn whose \<^verbatim>\<open>uid()\<close> returned \<open>i\<close>;
  \<open>live i s\<close>: a heart with id \<open>i\<close> is in \<^verbatim>\<open>heartsRef.current\<close>.\<close>

fun spawnsOf :: "string \<Rightarrow> Event \<Rightarrow> bool" where
  "spawnsOf i (SpawnFire h u r1 r2) = (u = i)"
| "spawnsOf i _ = False"

definition live :: "string \<Rightarrow> Session \<Rightarrow> bool" where
  "live i s = (i \<in> set (map hid (hearts s)))"

text \<open>
  How often, in the run of \<open>evs\<close> from \<open>s\<close>, a tap on \<open>i\<close> added to the score
  (\<open>tapScores\<close>), and how often the end of an animation took a heart with id \<open>i\<close> off
  the list (\<open>misses\<close>).
\<close>

fun tapScores :: "string \<Rightarrow> Session \<Rightarrow> Event list \<Rightarrow> nat" where
  "tapScores i s [] = 0"
| "tapScores i s (e # es) =
     (if e = Tap i \<and> score (step e s) = score s + 1 then 1 else 0) + tapScores i (step e s) es"

fun misses :: "string \<Rightarrow> Session \<Rightarrow> Event list \<Rightarrow> nat" where
  "misses i s [] = 0"
| "misses i s (e # es) =
     (case e of
        AnimEnd a \<Rightarrow> if live i s \<and> \<not> live i (step e s) then 1 else 0
      | _ \<Rightarrow> 0) + misses i (step e s) es"

text \<open>
  A spawned object is told from the others by the handle of its animation (ids are
  random strings; handles are handed out once). \<open>onList a s\<close>: the heart with
  animation \<open>a\<close> is on the list. \<open>leaves a e s\<close>: the event \<open>e\<close>, delivered in \<open>s\<close>,
  takes that heart off the list, and how: by a tap, by the end of an animation, or by
  anything else (the handlers left are \<^verbatim>\<open>clearHearts\<close> and its callers).
  \<open>ways a s evs\<close> lists, in order, the ways in which the heart left the list in the
  run of \<open>evs\<close> from \<open>s\<close>.
\<close>

datatype Way = ByTap | ByMiss | ByClear

definition onList :: "nat \<Rightarrow> Session \<Rightarrow> bool" where
  "onList a s = (a \<in> set (map hanim (hearts s)))"

definition leaves :: "nat \<Rightarrow> Event \<Rightarrow> Session \<Rightarrow> Way option" where
  "leaves a e s =
     (if onList a s \<and> \<not> onList a (step e s)
      then Some (case e of Tap i \<Rightarrow> ByTap | AnimEnd b \<Rightarrow> ByMiss | _ \<Rightarrow> ByClear)
      else None)"

fun ways :: "nat \<Rightarrow> Session \<Rightarrow> Event list \<Rightarrow> Way list" where
  "ways a s [] = []"
| "ways a s (e # es) =
     (case leaves a e s of None \<Rightarrow> [] | Some w \<Rightarrow> [w]) @ ways a (step e s) es"

subsection \<open>Timers in due order\<close>

text \<open>
  \<open>step\<close> and \<open>run\<close> take the events in any order. The JavaScript runtime does not
  deliver timers in any order: a timer set at the time \<open>t\<close> with the delay \<open>d\<close> is due
  at \<open>t + d\<close>, it does not fire before it is due, of the timers that are pending the
  one due first fires first, and an interval that has fired is due again one delay
  later. Presses, taps and the ends of animations come at any time. A timed run is a
  list of events with the times of their delivery, on the clock of the timers (which is
  not \<^verbatim>\<open>Date.now()\<close> and is never set back); \<open>D h\<close> is the time at which the timer
  with the handle \<open>h\<close> is due.

  \<open>fires e s\<close> is the handle of the pending timer whose callback the event \<open>e\<close> runs
  in \<open>s\<close>, if it runs one.
\<close>

type_synonym Dues = "nat \<Rightarrow> int"

fun fires :: "Event \<Rightarrow> Session \<Rightarrow> nat option" where
  "fires (ClockFire h t) s =
     (case intervals s h of Some (d, TickCb idx st sc) \<Rightarrow> Some h | _ \<Rightarrow> None)"
| "fires (SpawnFire h u r1 r2) s =
     (case intervals s h of Some (d, SpawnCb idx) \<Rightarrow> Some h | _ \<Rightarrow> None)"
| "fires (TimeoutFire h) s = (if h \<in> set (timeouts s) then Some h else None)"
| "fires _ s = None"

fun isTimer :: "Event \<Rightarrow> bool" where
  "isTimer (ClockFire h t) = True"
| "isTimer (SpawnFire h u r1 r2) = True"
| "isTimer (TimeoutFire h) = True"
| "isTimer _ = False"

text \<open>
  \<open>pendingT s k\<close>: the timer \<open>k\<close> is an interval that has not been cleared, or a
  time-out that has not fired. \<open>delayOf s h\<close> is its delay: the one given to
  \<^verbatim>\<open>setInterval\<close>, or the 250 ms of the time-out. A timer event can be delivered at
  the time \<open>t\<close> if it runs the callback of a pending timer that is due by then and no
  pending timer is due before that one.
\<close>

definition pendingT :: "Session \<Rightarrow> nat \<Rightarrow> bool" where
  "pendingT s k = (intervals s k \<noteq> None \<or> k \<in> set (timeouts s))"

definition delayOf :: "Session \<Rightarrow> nat \<Rightarrow> int" where
  "delayOf s h = (case intervals s h of Some (d, cb) \<Rightarrow> d | None \<Rightarrow> 250)"

definition deliverable :: "Dues \<Rightarrow> Session \<Rightarrow> int \<Rightarrow> Event \<Rightarrow> bool" where
  "deliverable D s t e =
     (isTimer e \<longrightarrow>
        (case fires e s of
           None \<Rightarrow> False
         | Some h \<Rightarrow> D h \<le> t \<and> (\<forall>k \<in> set [0..<nextTimer s]. pendingT s k \<longrightarrow> D h \<le> D k)))"

text \<open>
  The due times after the event \<open>e\<close> delivered at \<open>t\<close>: the timers created by its
  handler, and the interval that has just fired, are due one delay after \<open>t\<close>.
  \<open>feasible T D s tevs\<close>: from the state \<open>s\<close> at the time \<open>T\<close> with the due times
  \<open>D\<close>, the runtime can deliver the timed events \<open>tevs\<close> in this order.
\<close>

definition rearm :: "Dues \<Rightarrow> Session \<Rightarrow> int \<Rightarrow> Event \<Rightarrow> Dues" where
  "rearm D s t e =
     (\<lambda>h. if (nextTimer s \<le> h \<and> h < nextTimer (step e s)) \<or> fires e s = Some h
          then t + delayOf (step e s) h else D h)"

fun feasible :: "int \<Rightarrow> Dues \<Rightarrow> Session \<Rightarrow> (int \<times> Event) list \<Rightarrow> bool" where
  "feasible T D s [] = True"
| "feasible T D s ((t, e) # es) =
     (T \<le> t \<and> deliverable D s t e \<and> feasible t (rearm D s t e) (step e s) es)"

subsection \<open>Closed forms of the clearing functions\<close>

text \<open>\<open>stopAll A m\<close> is the animation store \<open>m\<close> after \<^verbatim>\<open>stop()\<close> on every handle
  in \<open>A\<close>; \<open>dropTimers s\<close> is the interval store after \<^verbatim>\<open>clearTimers()\<close>.\<close>

definition stopA :: "Anim \<Rightarrow> Anim" where
  "stopA an = (if a_status an = Running then an\<lparr>a_status := Stopped\<rparr> else an)"

definition stopAll :: "nat set \<Rightarrow> (nat \<Rightarrow> Anim option) \<Rightarrow> (nat \<Rightarrow> Anim option)" where
  "stopAll A m = (\<lambda>a. if a \<in> A then map_option stopA (m a) else m a)"

definition dropTimers :: "Session \<Rightarrow> (nat \<Rightarrow> Interval option)" where
  "dropTimers s =
     (\<lambda>h. if spawnTimer s = Some h \<or> tickTimer s = Some h then None else intervals s h)"

subsection \<open>Invariants of the timer store\<close>

text \<open>
  \<open>timersInv\<close>: an interval that is alive is the one \<^verbatim>\<open>tickTimer\<close> or
  \<^verbatim>\<open>spawnTimer\<close> refers to, and its handle has been handed out.
  \<open>clockInv T\<close>: a countdown callback that is alive is the one \<^verbatim>\<open>tickTimer\<close>
  refers to, its level exists, and \<^verbatim>\<open>timeLeft\<close> is what the callback computes at a
  reading \<open>last\<close> no later than \<open>T\<close>.
\<close>

definition timersInv :: "Session \<Rightarrow> bool" where
  "timersInv s =
     (\<forall>h. (tickTimer s \<noteq> Some h \<and> spawnTimer s \<noteq> Some h) \<or> nextTimer s \<le> h
        \<longrightarrow> intervals s h = None)"


text \<open>
  \<open>heartsInv\<close>: the animation handle of every heart on the list has been handed out.
  \<open>idle a\<close>: the animation \<open>a\<close> has been handed out and is not running.
\<close>

definition heartsInv :: "Session \<Rightarrow> bool" where
  "heartsInv s = (\<forall>x \<in> set (hearts s). hanim x < nextAnim s)"

definition idle :: "nat \<Rightarrow> Session \<Rightarrow> bool" where
  "idle a s = ((\<forall>an. anims s a = Some an \<longrightarrow> a_status an \<noteq> Running) \<and> a < nextAnim s)"

text \<open>
  \<open>liveInv\<close>: every heart on the list has a running animation, whose callback
  closes over the id of that heart.
\<close>

definition liveInv :: "Session \<Rightarrow> bool" where
  "liveInv s =
     (\<forall>x \<in> set (hearts s). \<exists>an. anims s (hanim x) = Some an \<and>
         a_status an = Running \<and> a_owner an = hid x)"

text \<open>
  \<open>levelsInv\<close>: an interval is alive only while a level is played; it is the one its ref
  refers to, it was created for the level in play, with the delay \<^verbatim>\<open>startLevel\<close>
  gives it; and the level in play is in the catalog.
\<close>

definition levelsInv :: "Session \<Rightarrow> bool" where
  "levelsInv s =
     ((\<forall>h d idx st sc. intervals s h = Some (d, TickCb idx st sc) \<longrightarrow>
         phase s = Playing \<and> tickTimer s = Some h \<and> idx = levelIndex s \<and> d = 250) \<and>
      (\<forall>h d idx. intervals s h = Some (d, SpawnCb idx) \<longrightarrow>
         phase s = Playing \<and> spawnTimer s = Some h \<and> idx = levelIndex s \<and>
         (\<exists>lv. level_at idx = Some lv \<and> d = spawnEveryMs lv)) \<and>
      (phase s = Playing \<longrightarrow> level_at (levelIndex s) \<noteq> None))"

text \<open>
  \<open>toInv\<close>: the handle of a pending time-out has been handed out and is not that of
  an interval. \<open>dueInv T D\<close>, at the time \<open>T\<close> with the due times \<open>D\<close>: a pending
  time-out is due within 250 ms; while a level is played and a time-out is still
  pending, the list is empty and the spawner of the level is due after every pending
  time-out; and outside a level, hearts are on the list only while at most one time-out
  is pending.
\<close>

definition toInv :: "Session \<Rightarrow> bool" where
  "toInv s = (\<forall>k \<in> set (timeouts s). k < nextTimer s \<and> intervals s k = None)"

definition dueInv :: "int \<Rightarrow> Dues \<Rightarrow> Session \<Rightarrow> bool" where
  "dueInv T D s =
     ((\<forall>k \<in> set (timeouts s). D k \<le> T + 250) \<and>
      (phase s = Playing \<longrightarrow>
         timeouts s = [] \<or>
         (hearts s = [] \<and>
          (\<exists>sp d idx. spawnTimer s = Some sp \<and> intervals s sp = Some (d, SpawnCb idx) \<and>
             (\<forall>k \<in> set (timeouts s). D k < D sp)))) \<and>
      (phase s \<noteq> Playing \<longrightarrow> hearts s = [] \<or> length (timeouts s) \<le> 1))"

subsection \<open>Example runs\<close>

text \<open>
  Handles in these runs: the first \<^verbatim>\<open>startLevel\<close> gets the intervals 1 (countdown)
  and 2 (spawner); an \<^verbatim>\<open>endLevel\<close> then takes 3 for its time-out, and the next
  \<^verbatim>\<open>startLevel\<close> gets 4 and 5; and so on. Animations are numbered from 0.
\<close>

definition uidN :: "nat \<Rightarrow> string" where
  "uidN k = replicate (Suc k) (CHR ''h'')"

text \<open>\<open>n\<close> hearts spawned by the interval \<open>h\<close>, each tapped before the next one.\<close>

definition spawnAndTap :: "nat \<Rightarrow> nat \<Rightarrow> Event list" where
  "spawnAndTap h n = concat (map (\<lambda>k. [SpawnFire h (uidN k) 0 0, Tap (uidN k)]) [0..<n])"

text \<open>A level in play at the time 500 ms: one heart tapped, one on its way.\<close>

definition playing_trace :: "Event list" where
  "playing_trace =
     [PressStart 0, SpawnFire 2 ''h1'' 0 0, Tap ''h1'', SpawnFire 2 ''h2'' 3 10,
      ClockFire 1 500]"

text \<open>Level 1 played for the first time: 18 hearts tapped, then the countdown runs out.\<close>

definition first_play_trace :: "Event list" where
  "first_play_trace = [PressStart 0] @ spawnAndTap 2 18 @ [ClockFire 1 20000]"

text \<open>
  Level 1 finished with 18 points, level 2 finished with 26, then level 3 started and
  left alone until its 22 seconds are over.
\<close>

definition stale_trace :: "Event list" where
  "stale_trace =
     [PressStart 0] @ spawnAndTap 2 18 @ [PressFinish, PressNext 30000] @
     spawnAndTap 5 26 @ [PressFinish, PressNext 60000, ClockFire 7 82000]"

text \<open>A heart that is on the screen when the countdown runs out.\<close>

definition cleared_trace :: "Event list" where
  "cleared_trace =
     [PressStart 0, SpawnFire 2 ''h1'' 0 0, ClockFire 1 20000, TimeoutFire 3]"


text \<open>One heart spawned, tapped twice, and its animation reaching the end after that.\<close>

definition spawned_trace :: "Event list" where
  "spawned_trace = [PressStart 0, SpawnFire 2 ''h1'' 0 0]"

definition tapped_trace :: "Event list" where
  "tapped_trace = [Tap ''h1'', AnimEnd 0, Tap ''h1'']"

text \<open>What follows a restart in the middle of \<open>playing_trace\<close>: a heart of the new
  level, then firings of the old countdown 1, of the old spawner 2 and of the new
  countdown 3, and the end of the old animation 1.\<close>

definition restarted_trace :: "Event list" where
  "restarted_trace =
     [SpawnFire 4 ''h3'' 0 0, ClockFire 1 1200, SpawnFire 2 ''h4'' 0 0, ClockFire 3 1200,
      AnimEnd 1]"


text \<open>
  Level 1 finished with 18 points, level 2 finished with 22 (so the countdown of level 3
  captures the score 22), and in level 3 the 26 hearts of its target are tapped.
\<close>

definition late_pass_trace :: "Event list" where
  "late_pass_trace =
     [PressStart 0] @ spawnAndTap 2 18 @ [PressFinish, PressNext 30000] @
     spawnAndTap 5 22 @ [PressFinish, PressNext 60000] @ spawnAndTap 8 26"

text \<open>
  Three hearts (animations 0, 1 and 2): the first is tapped, and its animation ends
  after that; the fall of the second ends, and it is tapped after that; the third is on
  the list when the level is quit.
\<close>

definition removed_trace :: "Event list" where
  "removed_trace =
     [PressStart 0, SpawnFire 2 ''h1'' 0 0, SpawnFire 2 ''h2'' 0 0, SpawnFire 2 ''h3'' 0 0,
      Tap ''h1'', AnimEnd 1, AnimEnd 0, Tap ''h2'', PressQuit, AnimEnd 2]"

text \<open>
  A timed run: level 1 started at 0, "Finish" at 1000 (the time-out 3 is due at 1250),
  "Retry" at 1100 (the countdown 4 is due at 1350, the spawner 5 at 1800), and the timers
  in the order in which they are due.
\<close>

definition due_trace :: "(int \<times> Event) list" where
  "due_trace =
     [(0, PressStart 0), (1000, PressFinish), (1100, PressRetry 1100),
      (1250, TimeoutFire 3), (1350, ClockFire 4 1350), (1600, ClockFire 4 1600),
      (1800, SpawnFire 5 ''h1'' 0 0)]"

section \<open>Lemmas\<close>

subsection \<open>Closed forms of the handlers\<close>

lemma stopA_idem: "stopA (stopA an) = stopA an"
  by (simp add: stopA_def)

lemma animStop_eq: "animStop a s = s\<lparr>anims := stopAll {a} (anims s)\<rparr>"
proof -
  have "stopAll {a} (anims s) = (case anims s a of None \<Rightarrow> anims s
        | Some an \<Rightarrow> if a_status an = Running then (anims s)(a \<mapsto> an\<lparr>a_status := Stopped\<rparr>) else anims s)"
    by (auto simp: stopAll_def stopA_def fun_eq_iff split: option.splits)
  then show ?thesis
    by (simp add: animStop_def split: option.splits)
qed

lemma stopAll_stopAll: "stopAll A (stopAll B m) = stopAll (A \<union> B) m"
  by (auto simp: stopAll_def fun_eq_iff stopA_idem option.map_comp comp_def split: option.splits)

lemma fold_animStop_eq:
  "fold (\<lambda>h. animStop (hanim h)) hs s = s\<lparr>anims := stopAll (hanim ` set hs) (anims s)\<rparr>"
proof (induction hs arbitrary: s)
  case Nil
  show ?case by (simp add: stopAll_def)
next
  case (Cons h hs)
  have "fold (\<lambda>h. animStop (hanim h)) (h # hs) s =
        fold (\<lambda>h. animStop (hanim h)) hs (animStop (hanim h) s)"
    by simp
  also have "\<dots> = (animStop (hanim h) s)\<lparr>anims :=
        stopAll (hanim ` set hs) (anims (animStop (hanim h) s))\<rparr>"
    by (rule Cons.IH)
  also have "\<dots> = s\<lparr>anims := stopAll (hanim ` set (h # hs)) (anims s)\<rparr>"
    by (simp add: animStop_eq stopAll_stopAll Un_commute)
  finally show ?case .
qed

lemma clearHearts_eq:
  "clearHearts s =
     s\<lparr>anims := stopAll (hanim ` set (hearts s)) (anims s), hearts := [], renders := renders s + 1\<rparr>"
  by (simp add: clearHearts_def fold_animStop_eq Let_def)

lemma clearTimers_eq:
  "clearTimers s = s\<lparr>intervals := dropTimers s, spawnTimer := None, tickTimer := None\<rparr>"
proof -
  have "intervals (clearTimers s) = dropTimers s"
    by (auto simp: clearTimers_def clearInterval_def dropTimers_def Let_def fun_eq_iff split: option.splits)
  then show ?thesis
    by (simp add: clearTimers_def clearInterval_def Let_def split: option.splits)
qed

lemma level_at_cases:
  "level_at idx = Some lv \<Longrightarrow>
     (idx = 0 \<and> lv = LEVELS ! 0) \<or> (idx = 1 \<and> lv = LEVELS ! 1) \<or> (idx = 2 \<and> lv = LEVELS ! 2)"
proof -
  assume a: "level_at idx = Some lv"
  then have "0 \<le> idx" "idx < 3"
    by (auto simp: level_at_def LEVELS_def split: if_splits)
  then have "idx = 0 \<or> idx = 1 \<or> idx = 2" by arith
  with a show ?thesis
    by (auto simp: level_at_def split: if_splits)
qed

lemma startLevel_eq:
  "level_at idx = Some lv \<Longrightarrow>
   startLevel idx now s =
     (Completed,
      s\<lparr>phase := Playing, levelIndex := idx, score := 0, timeLeft := ceilSec (durationMs lv),
        hearts := [], renders := renders s + 1,
        spawnTimer := Some (nextTimer s + 1), tickTimer := Some (nextTimer s),
        intervals := (dropTimers s)(nextTimer s \<mapsto> (250, TickCb idx now (score s)),
                                     nextTimer s + 1 \<mapsto> (spawnEveryMs lv, SpawnCb idx)),
        nextTimer := nextTimer s + 2,
        anims := stopAll (hanim ` set (hearts s)) (anims s)\<rparr>)"
  by (simp add: startLevel_def clearHearts_eq clearTimers_eq setInterval_def Let_def)

subsection \<open>Whole seconds\<close>

lemma ceilSec_ceiling: "ceilSec a = \<lceil>real_of_int a / 1000\<rceil>"
proof -
  have "\<lceil>real_of_int a / real_of_int 1000\<rceil> = - (- a div 1000)"
    by (rule ceiling_divide_eq_div)
  then show ?thesis by (simp add: ceilSec_def)
qed


lemma ceilSec_pos_iff: "ceilSec a \<le> 0 \<longleftrightarrow> a \<le> 0"
proof -
  have "0 \<le> (- a) div 1000 \<longleftrightarrow> 0 \<le> - a"
    by (rule pos_imp_zdiv_nonneg_iff) simp
  then show ?thesis by (simp add: ceilSec_def)
qed

lemma ceilSec_max: "max 0 (ceilSec a) = ceilSec (max 0 a)"
  using ceilSec_pos_iff[of a] by (auto simp: max_def ceilSec_def)

lemma level_duration: "level_at idx = Some lv \<Longrightarrow> ceilSec (durationMs lv) * 1000 = durationMs lv"
  by (drule level_at_cases) (auto simp: LEVELS_def ceilSec_def)

subsection \<open>Stopped animations\<close>

lemma stopA_not_running: "a_status (stopA an) \<noteq> Running"
  by (simp add: stopA_def)

lemma stopAll_not_running:
  "a \<in> A \<Longrightarrow> stopAll A m a = Some an \<Longrightarrow> a_status an \<noteq> Running"
  by (auto simp: stopAll_def stopA_not_running)

lemma hearts_stopped:
  "\<forall>h \<in> set hs. \<forall>an. stopAll (hanim ` set hs) m (hanim h) = Some an \<longrightarrow> a_status an \<noteq> Running"
  using stopAll_not_running by (metis imageI)

subsection \<open>Taps\<close>

lemma find_None_hid: "find (\<lambda>x. hid x = i) hs = None \<longleftrightarrow> i \<notin> hid ` set hs"
  by (auto simp: find_None_iff)

lemma onTapHeart_absent:
  "i \<notin> hid ` set (hearts s) \<Longrightarrow> onTapHeart i s = s\<lparr>softHaptics := softHaptics s + 1\<rparr>"
  using find_None_hid[of i "hearts s"] by (simp add: onTapHeart_def Let_def)

lemma onTapHeart_present:
  "find (\<lambda>x. hid x = i) (hearts s) = Some h \<Longrightarrow>
   onTapHeart i s =
     s\<lparr>softHaptics := softHaptics s + 1, anims := stopAll {hanim h} (anims s),
       hearts := filter (\<lambda>x. hid x \<noteq> i) (hearts s), score := score s + 1,
       renders := renders s + 1\<rparr>"
  by (simp add: onTapHeart_def Let_def animStop_eq)

lemma present_find: "i \<in> hid ` set hs \<Longrightarrow> \<exists>h. find (\<lambda>x. hid x = i) hs = Some h"
  using find_None_hid[of i hs] by (cases "find (\<lambda>x. hid x = i) hs") auto

subsection \<open>The end of a level\<close>

lemma endLevel_eq:
  "level_at idx = Some lv \<Longrightarrow>
   endLevel sc idx s =
     (Completed,
      s\<lparr>intervals := dropTimers s, spawnTimer := None, tickTimer := None,
        successHaptics := (if target lv \<le> sc then successHaptics s + 1 else successHaptics s),
        timeouts := timeouts s @ [nextTimer s], nextTimer := nextTimer s + 1,
        phase := (if target lv \<le> sc \<and> \<not> idx < int (length LEVELS) - 1 then Proposal else Reward)\<rparr>)"
  by (simp add: endLevel_def clearTimers_eq setTimeout_def Let_def)

subsection \<open>The intervals alive are the ones referred to\<close>

lemma timersInv_cong:
  "intervals s' = intervals s \<Longrightarrow> tickTimer s' = tickTimer s \<Longrightarrow>
   spawnTimer s' = spawnTimer s \<Longrightarrow> nextTimer s' = nextTimer s \<Longrightarrow>
   timersInv s \<Longrightarrow> timersInv s'"
  by (simp add: timersInv_def)

lemma dropTimers_inv: "timersInv s \<Longrightarrow> dropTimers s h = None"
  by (auto simp: timersInv_def dropTimers_def)

lemma endLevel_invalid: "level_at idx = None \<Longrightarrow> endLevel sc idx s = (TypeError, clearTimers s)"
  by (simp add: endLevel_def Let_def)

lemma timersInv_clearTimers: "timersInv s \<Longrightarrow> timersInv (clearTimers s)"
  by (simp add: timersInv_def clearTimers_eq dropTimers_def)

lemma timersInv_clearHearts: "timersInv s \<Longrightarrow> timersInv (clearHearts s)"
  by (erule timersInv_cong[rotated -1]) (simp_all add: clearHearts_eq)

lemma timersInv_quit: "timersInv s \<Longrightarrow> timersInv (quit s)"
  unfolding quit_def
  by (rule timersInv_cong[of _ "clearHearts (clearTimers s)"])
     (simp_all add: timersInv_clearHearts timersInv_clearTimers)

lemma timersInv_endLevel: "timersInv s \<Longrightarrow> timersInv (snd (endLevel sc idx s))"
proof (cases "level_at idx")
  case None
  assume "timersInv s"
  then show ?thesis by (simp add: endLevel_invalid[OF None] timersInv_clearTimers)
next
  case (Some lv)
  assume "timersInv s"
  then show ?thesis
    by (simp add: endLevel_eq[OF Some] timersInv_def dropTimers_def)
qed

lemma timersInv_startLevel: "timersInv s \<Longrightarrow> timersInv (snd (startLevel idx now s))"
proof (cases "level_at idx")
  case None
  assume "timersInv s"
  then show ?thesis
    by (simp add: startLevel_def Let_def None clearHearts_eq clearTimers_eq timersInv_def dropTimers_def)
next
  case (Some lv)
  assume "timersInv s"
  then show ?thesis
    by (simp add: startLevel_eq[OF Some] timersInv_def dropTimers_def)
qed

lemma timersInv_tick: "timersInv s \<Longrightarrow> timersInv (snd (tick idx st sc now s))"
proof -
  assume i: "timersInv s"
  have j: "\<And>v. timersInv (s\<lparr>timeLeft := v\<rparr>)"
    using i by (simp add: timersInv_def)
  show ?thesis
    by (cases "level_at idx") (simp_all add: tick_def Let_def i j timersInv_endLevel)
qed

lemma timersInv_spawnHeart: "timersInv s \<Longrightarrow> timersInv (snd (spawnHeart idx u r1 r2 s))"
  by (cases "level_at idx") (simp_all add: spawnHeart_def Let_def timersInv_def)

lemma timersInv_animEnd: "timersInv s \<Longrightarrow> timersInv (animEnd a s)"
  by (simp add: animEnd_def timersInv_def split: option.splits)

lemma timersInv_onTapHeart: "timersInv s \<Longrightarrow> timersInv (onTapHeart i s)"
  by (simp add: onTapHeart_def animStop_eq Let_def timersInv_def split: option.splits)

lemma timersInv_step: "timersInv s \<Longrightarrow> timersInv (step e s)"
proof (cases e)
  case (TimeoutFire h)
  assume i: "timersInv s"
  have "timersInv (s\<lparr>timeouts := removeAll h (timeouts s)\<rparr>)"
    using i by (simp add: timersInv_def)
  then show ?thesis using i TimeoutFire by (simp add: timersInv_clearHearts)
next
  case PressOpen
  assume "timersInv s"
  then show ?thesis using PressOpen by (simp add: timersInv_def)
next
  case PressYes
  assume "timersInv s"
  then show ?thesis using PressYes by (simp add: timersInv_def)
qed (simp_all add: timersInv_startLevel timersInv_quit timersInv_endLevel finish_def
       timersInv_tick timersInv_spawnHeart timersInv_animEnd timersInv_onTapHeart
       split: option.splits Callback.splits)

lemma timersInv_initial: "timersInv initial"
  by (simp add: timersInv_def initial_def)

lemma run_snoc: "run s (evs @ [e]) = step e (run s evs)"
  by (simp add: run_def)

lemma timersInv_run: "timersInv (run initial evs)"
  by (induction evs rule: rev_induct) (simp_all add: run_snoc timersInv_step, simp add: run_def timersInv_initial)

subsection \<open>The countdown and the remaining time\<close>








lemma dropTimers_timeLeft [simp]: "dropTimers (s\<lparr>timeLeft := v\<rparr>) = dropTimers s"
  by (simp add: dropTimers_def fun_eq_iff)




lemma tick_eq:
  "level_at idx = Some lv \<Longrightarrow>
   tick idx st sc now s =
     (if durationMs lv \<le> now - st then endLevel sc idx (s\<lparr>timeLeft := 0\<rparr>)
      else (Completed, s\<lparr>timeLeft := ceilSec (durationMs lv - (now - st))\<rparr>))"
  using ceilSec_pos_iff[of "durationMs lv - (now - st)"]
  by (auto simp: tick_def Let_def max_def)

lemma tick_timeLeft:
  assumes "level_at idx = Some lv"
  shows "timeLeft (snd (tick idx st sc now s)) = max 0 (ceilSec (durationMs lv - (now - st)))"
proof (cases "durationMs lv \<le> now - st")
  case True
  then have "ceilSec (durationMs lv - (now - st)) \<le> 0"
    using ceilSec_pos_iff[of "durationMs lv - (now - st)"] by simp
  then show ?thesis using True
    by (simp add: tick_eq[OF assms] endLevel_eq[OF assms] max_def)
next
  case False
  then have "\<not> ceilSec (durationMs lv - (now - st)) \<le> 0"
    using ceilSec_pos_iff[of "durationMs lv - (now - st)"] by simp
  then show ?thesis using False
    by (simp add: tick_eq[OF assms] max_def)
qed












subsection \<open>Hearts on the list\<close>

lemma hearts_spawnHeart:
  "set (hearts (snd (spawnHeart idx u r1 r2 s))) \<subseteq> set (hearts s) \<union> {h. hid h = u}"
  by (cases "level_at idx") (auto simp: spawnHeart_def Let_def)

lemma hearts_startLevel: "hearts (snd (startLevel idx now s)) = []"
  by (cases "level_at idx") (simp_all add: startLevel_def clearHearts_eq setInterval_def Let_def)

lemma hearts_endLevel: "hearts (snd (endLevel sc idx s)) = hearts s"
  by (cases "level_at idx") (simp_all add: endLevel_invalid clearTimers_eq endLevel_eq)

lemma hearts_tick: "hearts (snd (tick idx st sc now s)) = hearts s"
  by (cases "level_at idx") (simp_all add: tick_def Let_def hearts_endLevel)

lemma hearts_animEnd: "set (hearts (animEnd a s)) \<subseteq> set (hearts s)"
  by (auto simp: animEnd_def split: option.splits)

lemma hearts_onTapHeart: "set (hearts (onTapHeart i s)) \<subseteq> set (hearts s)"
  by (auto simp: onTapHeart_def animStop_eq Let_def split: option.splits)

lemma hearts_step:
  "set (hearts (step e s)) \<subseteq> set (hearts s) \<union> {h. spawnsOf (hid h) e}"
proof (cases e)
  case (SpawnFire h u r1 r2)
  then show ?thesis
    using hearts_spawnHeart[of _ u r1 r2 s]
    by (auto split: option.splits Callback.splits)
next
  case (ClockFire h t)
  then show ?thesis by (auto simp: hearts_tick split: option.splits Callback.splits)
next
  case (AnimEnd a)
  then show ?thesis using hearts_animEnd[of a s] by auto
next
  case (Tap i)
  then show ?thesis using hearts_onTapHeart[of i s] by auto
qed (auto simp: hearts_startLevel hearts_endLevel finish_def quit_def clearHearts_eq)

lemma absent_stays: "\<not> live i s \<Longrightarrow> \<not> spawnsOf i e \<Longrightarrow> \<not> live i (step e s)"
  using hearts_step[of e s] by (auto simp: live_def)

lemma tap_scored_removes:
  assumes "score (step (Tap i) s) = score s + 1"
  shows "live i s \<and> \<not> live i (step (Tap i) s)"
proof (cases "phase s = Playing \<and> i \<in> hid ` set (hearts s)")
  case True
  then obtain h where "find (\<lambda>x. hid x = i) (hearts s) = Some h"
    using present_find by blast
  then show ?thesis using True by (auto simp: onTapHeart_present live_def)
next
  case False
  then have "score (step (Tap i) s) = score s"
    by (auto simp: onTapHeart_absent)
  with assms show ?thesis by simp
qed

lemma tap_or_miss_bound:
  "\<forall>e \<in> set evs. \<not> spawnsOf i e \<Longrightarrow>
   tapScores i s evs + misses i s evs \<le> (if live i s then 1 else 0)"
proof (induction evs arbitrary: s)
  case Nil
  show ?case by simp
next
  case (Cons e es)
  have ns: "\<not> spawnsOf i e" and rest: "\<forall>e \<in> set es. \<not> spawnsOf i e"
    using Cons.prems by simp_all
  define c1 :: nat where "c1 = (if e = Tap i \<and> score (step e s) = score s + 1 then 1 else 0)"
  define c2 :: nat where "c2 = (case e of
        AnimEnd a \<Rightarrow> if live i s \<and> \<not> live i (step e s) then 1 else 0 | _ \<Rightarrow> 0)"
  define r where "r = tapScores i (step e s) es + misses i (step e s) es"
  define b :: nat where "b = (if live i s then 1 else 0)"
  define b' :: nat where "b' = (if live i (step e s) then 1 else 0)"
  have total: "tapScores i s (e # es) + misses i s (e # es) = c1 + c2 + r"
    unfolding c1_def c2_def r_def tapScores.simps misses.simps by linarith
  have ih: "r \<le> b'"
    unfolding r_def b'_def by (rule Cons.IH[OF rest])
  have "c1 + c2 + r \<le> b"
  proof (cases "e = Tap i \<and> score (step e s) = score s + 1")
    case True
    then have e: "e = Tap i" and sc: "score (step (Tap i) s) = score s + 1"
      by blast+
    have "live i s" "\<not> live i (step e s)"
      using tap_scored_removes[OF sc] unfolding e by blast+
    then have "b = 1" "b' = 0" by (simp_all add: b_def b'_def)
    moreover have "c1 = 1" unfolding c1_def using True by (rule if_P)
    moreover have "c2 = 0" unfolding c2_def e by simp
    ultimately show ?thesis using ih by linarith
  next
    case False
    then have c1: "c1 = 0" unfolding c1_def by (rule if_not_P)
    show ?thesis
    proof (cases "live i s \<and> \<not> live i (step e s)")
      case True
      then have "b = 1" "b' = 0" by (simp_all add: b_def b'_def)
      moreover have "c2 \<le> 1" unfolding c2_def by (cases e) simp_all
      ultimately show ?thesis using ih c1 by linarith
    next
      case False
      then have "c2 = 0" unfolding c2_def by (cases e) (simp_all only: Event.case if_False)
      moreover have "live i (step e s) \<Longrightarrow> live i s"
        using absent_stays[OF _ ns] by blast
      then have "b' \<le> b" by (simp add: b_def b'_def)
      ultimately show ?thesis using ih c1 by linarith
    qed
  qed
  then show ?case unfolding total b_def .
qed

lemma animEnd_after_tap:
  "find (\<lambda>x. hid x = i) (hearts s) = Some h \<Longrightarrow>
   animEnd (hanim h) (onTapHeart i s) = onTapHeart i s"
  by (auto simp: onTapHeart_present animEnd_def stopAll_def stopA_not_running split: option.splits)

lemma animEnd_idem: "animEnd a (animEnd a s) = animEnd a s"
  by (simp add: animEnd_def split: option.splits)

subsection \<open>A cleared interval stays cleared\<close>

lemma intervals_startLevel_dead:
  assumes "intervals s h = None" and "h < nextTimer s"
  shows "intervals (snd (startLevel idx now s)) h = None \<and> h < nextTimer (snd (startLevel idx now s))"
proof (cases "level_at idx")
  case None
  then show ?thesis using assms
    by (simp add: startLevel_def Let_def clearHearts_eq clearTimers_eq dropTimers_def)
next
  case (Some lv)
  then show ?thesis using assms
    by (simp add: startLevel_eq[OF Some] dropTimers_def)
qed

lemma intervals_endLevel_dead:
  assumes "intervals s h = None" and "h < nextTimer s"
  shows "intervals (snd (endLevel sc idx s)) h = None \<and> h < nextTimer (snd (endLevel sc idx s))"
proof (cases "level_at idx")
  case None
  then show ?thesis using assms
    by (simp add: endLevel_invalid clearTimers_eq dropTimers_def)
next
  case (Some lv)
  then show ?thesis using assms
    by (simp add: endLevel_eq[OF Some] dropTimers_def)
qed

lemma intervals_tick_dead:
  assumes "intervals s h = None" and "h < nextTimer s"
  shows "intervals (snd (tick idx st sc now s)) h = None \<and> h < nextTimer (snd (tick idx st sc now s))"
proof (cases "level_at idx")
  case None
  then show ?thesis using assms by (simp add: tick_def)
next
  case (Some lv)
  have "intervals (s\<lparr>timeLeft := 0\<rparr>) h = None" "h < nextTimer (s\<lparr>timeLeft := 0\<rparr>)"
    using assms by simp_all
  from intervals_endLevel_dead[OF this] show ?thesis
    using assms by (simp add: tick_eq[OF Some])
qed

lemma intervals_spawnHeart_same:
  "intervals (snd (spawnHeart idx u r1 r2 s)) = intervals s \<and>
   nextTimer (snd (spawnHeart idx u r1 r2 s)) = nextTimer s"
  by (cases "level_at idx") (simp_all add: spawnHeart_def Let_def)

lemma intervals_animEnd_same:
  "intervals (animEnd a s) = intervals s \<and> nextTimer (animEnd a s) = nextTimer s"
  by (simp add: animEnd_def split: option.splits)

lemma intervals_onTapHeart_same:
  "intervals (onTapHeart i s) = intervals s \<and> nextTimer (onTapHeart i s) = nextTimer s"
  by (simp add: onTapHeart_def animStop_eq Let_def split: option.splits)

lemma intervals_quit_dead:
  assumes "intervals s h = None" and "h < nextTimer s"
  shows "intervals (quit s) h = None \<and> h < nextTimer (quit s)"
  using assms by (simp add: quit_def clearHearts_eq clearTimers_eq dropTimers_def)

lemma dead_interval_step:
  assumes "intervals s h = None" and "h < nextTimer s"
  shows "intervals (step e s) h = None \<and> h < nextTimer (step e s)"
proof (cases e)
  case (ClockFire k t)
  then show ?thesis using assms intervals_tick_dead[OF assms]
    by (simp split: option.splits Callback.splits)
next
  case (SpawnFire k u r1 r2)
  then show ?thesis using assms intervals_spawnHeart_same
    by (simp split: option.splits Callback.splits)
next
  case (TimeoutFire k)
  then show ?thesis using assms by (simp add: clearHearts_eq)
qed (use assms in \<open>simp_all add: intervals_startLevel_dead intervals_endLevel_dead
       intervals_quit_dead intervals_animEnd_same intervals_onTapHeart_same finish_def\<close>)

lemma dead_interval_run:
  "intervals s h = None \<Longrightarrow> h < nextTimer s \<Longrightarrow>
   intervals (run s evs) h = None \<and> h < nextTimer (run s evs)"
proof (induction evs rule: rev_induct)
  case Nil
  then show ?case by (simp add: run_def)
next
  case (snoc e evs)
  then show ?case by (simp add: run_snoc dead_interval_step)
qed

subsection \<open>A stopped animation stays stopped\<close>

lemma idle_cong:
  "anims s' = anims s \<Longrightarrow> nextAnim s' = nextAnim s \<Longrightarrow> idle a s \<Longrightarrow> idle a s'"
  by (simp add: idle_def)

lemma idle_stopAll:
  "idle a s \<Longrightarrow> anims s' = stopAll A (anims s) \<Longrightarrow> nextAnim s' = nextAnim s \<Longrightarrow> idle a s'"
  by (auto simp: idle_def stopAll_def stopA_def)

lemma idle_clearHearts: "idle a s \<Longrightarrow> idle a (clearHearts s)"
  by (erule idle_stopAll) (simp_all add: clearHearts_eq)

lemma anims_endLevel: "anims (snd (endLevel sc idx s)) = anims s \<and>
   nextAnim (snd (endLevel sc idx s)) = nextAnim s"
  by (cases "level_at idx") (simp_all add: endLevel_invalid clearTimers_eq endLevel_eq)

lemma anims_tick: "anims (snd (tick idx st sc now s)) = anims s \<and>
   nextAnim (snd (tick idx st sc now s)) = nextAnim s"
  by (cases "level_at idx") (simp_all add: tick_def Let_def anims_endLevel)

lemma idle_endLevel: "idle a s \<Longrightarrow> idle a (snd (endLevel sc idx s))"
  by (erule idle_cong[rotated -1]) (simp_all add: anims_endLevel)

lemma idle_tick: "idle a s \<Longrightarrow> idle a (snd (tick idx st sc now s))"
  by (erule idle_cong[rotated -1]) (simp_all add: anims_tick)

lemma idle_startLevel: "idle a s \<Longrightarrow> idle a (snd (startLevel idx now s))"
proof (cases "level_at idx")
  case None
  assume "idle a s"
  then show ?thesis
    by (rule idle_stopAll[where A = "hanim ` set (hearts s)"])
       (simp_all add: startLevel_def Let_def None clearHearts_eq clearTimers_eq)
next
  case (Some lv)
  assume "idle a s"
  then show ?thesis
    by (rule idle_stopAll[where A = "hanim ` set (hearts s)"])
       (simp_all add: startLevel_eq[OF Some])
qed

lemma idle_quit: "idle a s \<Longrightarrow> idle a (quit s)"
  by (erule idle_stopAll[where A = "hanim ` set (hearts s)"])
     (simp_all add: quit_def clearHearts_eq clearTimers_eq)

lemma idle_spawnHeart: "idle a s \<Longrightarrow> idle a (snd (spawnHeart idx u r1 r2 s))"
  by (cases "level_at idx") (simp_all add: spawnHeart_def Let_def idle_def)

lemma idle_animEnd: "idle a s \<Longrightarrow> idle a (animEnd b s)"
  by (auto simp: animEnd_def idle_def split: option.splits)

lemma idle_onTapHeart: "idle a s \<Longrightarrow> idle a (onTapHeart i s)"
proof (cases "find (\<lambda>x. hid x = i) (hearts s)")
  case None
  assume "idle a s"
  then show ?thesis using None by (simp add: onTapHeart_def Let_def idle_def)
next
  case (Some x)
  assume "idle a s"
  then show ?thesis
    by (rule idle_stopAll[where A = "{hanim x}"]) (simp_all add: onTapHeart_present[OF Some])
qed

lemma idle_step: "idle a s \<Longrightarrow> idle a (step e s)"
proof (cases e)
  case PressOpen
  assume "idle a s"
  then show ?thesis using PressOpen by (simp add: idle_def)
next
  case PressYes
  assume "idle a s"
  then show ?thesis using PressYes by (simp add: idle_def)
next
  case (TimeoutFire k)
  assume i: "idle a s"
  then have "idle a (s\<lparr>timeouts := removeAll k (timeouts s)\<rparr>)"
    by (simp add: idle_def)
  then show ?thesis using i TimeoutFire by (simp add: idle_clearHearts)
qed (simp_all add: idle_startLevel idle_quit idle_endLevel finish_def idle_tick
       idle_spawnHeart idle_animEnd idle_onTapHeart split: option.splits Callback.splits)

lemma idle_run: "idle a s \<Longrightarrow> idle a (run s evs)"
  by (induction evs rule: rev_induct) (simp_all add: run_def idle_step)

subsection \<open>Animation handles of the hearts on the list\<close>

lemma nextAnim_step: "nextAnim s \<le> nextAnim (step e s)"
proof (cases e)
  case (SpawnFire k u r1 r2)
  have "\<And>idx. nextAnim s \<le> nextAnim (snd (spawnHeart idx u r1 r2 s))"
    by (simp add: spawnHeart_def Let_def split: option.splits)
  then show ?thesis using SpawnFire by (simp split: option.splits Callback.splits)
next
  case (ClockFire k t)
  then show ?thesis by (simp add: anims_tick split: option.splits Callback.splits)
next
  case (Tap i)
  then show ?thesis by (simp add: onTapHeart_def animStop_eq Let_def split: option.splits)
next
  case (AnimEnd b)
  then show ?thesis by (simp add: animEnd_def split: option.splits)
next
  case (PressStart t)
  have "\<And>idx. nextAnim (snd (startLevel idx t s)) = nextAnim s"
    by (simp add: startLevel_def Let_def clearHearts_eq clearTimers_eq setInterval_def split: option.splits)
  then show ?thesis using PressStart by simp
next
  case (PressNext t)
  have "\<And>idx. nextAnim (snd (startLevel idx t s)) = nextAnim s"
    by (simp add: startLevel_def Let_def clearHearts_eq clearTimers_eq setInterval_def split: option.splits)
  then show ?thesis using PressNext by simp
next
  case (PressRetry t)
  have "\<And>idx. nextAnim (snd (startLevel idx t s)) = nextAnim s"
    by (simp add: startLevel_def Let_def clearHearts_eq clearTimers_eq setInterval_def split: option.splits)
  then show ?thesis using PressRetry by simp
qed (simp_all add: quit_def clearHearts_eq clearTimers_eq finish_def anims_endLevel)

lemma heartsInv_step: "heartsInv s \<Longrightarrow> heartsInv (step e s)"
proof -
  assume i: "heartsInv s"
  show ?thesis
    unfolding heartsInv_def
  proof
    fix x assume x: "x \<in> set (hearts (step e s))"
    show "hanim x < nextAnim (step e s)"
    proof (cases "x \<in> set (hearts s)")
      case True
      then have "hanim x < nextAnim s" using i by (simp add: heartsInv_def)
      then show ?thesis using nextAnim_step[of s e] by linarith
    next
      case False
      then obtain k u r1 r2 where e: "e = SpawnFire k u r1 r2"
        using x hearts_step[of e s] by (cases e) auto
      from False x e obtain d idx where iv: "intervals s k = Some (d, SpawnCb idx)"
        by (auto split: option.splits Callback.splits)
      then have st: "step e s = snd (spawnHeart idx u r1 r2 s)" using e by simp
      from False x obtain lv where "level_at idx = Some lv"
        unfolding st by (cases "level_at idx") (auto simp: spawnHeart_def Let_def)
      then show ?thesis using False x unfolding st
        by (auto simp: spawnHeart_def Let_def)
    qed
  qed
qed

lemma heartsInv_run: "heartsInv (run initial evs)"
proof (induction evs rule: rev_induct)
  case Nil
  show ?case by (simp add: run_def heartsInv_def initial_def)
next
  case (snoc e evs)
  then show ?case by (simp add: run_snoc heartsInv_step)
qed

subsection \<open>The score while a level is played\<close>




subsection \<open>The intervals alive belong to the level in play\<close>

lemma levelsInv_empty:
  "(\<And>h. intervals s h = None) \<Longrightarrow> (phase s = Playing \<Longrightarrow> level_at (levelIndex s) \<noteq> None) \<Longrightarrow>
   levelsInv s"
  by (simp add: levelsInv_def)

lemma levelsInv_cong:
  "intervals s' = intervals s \<Longrightarrow> tickTimer s' = tickTimer s \<Longrightarrow>
   spawnTimer s' = spawnTimer s \<Longrightarrow> phase s' = phase s \<Longrightarrow> levelIndex s' = levelIndex s \<Longrightarrow>
   levelsInv s \<Longrightarrow> levelsInv s'"
  by (simp add: levelsInv_def)

lemma levelsInv_referred:
  assumes "levelsInv s" and "intervals s h = Some (d, cb)"
  shows "(tickTimer s = Some h \<or> spawnTimer s = Some h) \<and> phase s = Playing"
  using assms unfolding levelsInv_def by (cases cb) blast+

lemma levelsInv_dropped: "levelsInv s \<Longrightarrow> dropTimers s h = None"
proof (cases "intervals s h")
  case None
  then show ?thesis by (simp add: dropTimers_def)
next
  case (Some p)
  assume i: "levelsInv s"
  obtain d cb where "p = (d, cb)" by (cases p)
  with Some have "intervals s h = Some (d, cb)" by simp
  from levelsInv_referred[OF i this] show ?thesis by (auto simp: dropTimers_def)
qed

lemma levelsInv_playing: "levelsInv s \<Longrightarrow> intervals s h = Some p \<Longrightarrow> phase s = Playing"
  using levelsInv_referred[of s h "fst p" "snd p"] by simp

lemma levelsInv_idle: "levelsInv s \<Longrightarrow> phase s \<noteq> Playing \<Longrightarrow> intervals s h = None"
  using levelsInv_playing[of s h] by (cases "intervals s h") auto

lemma levelsInv_level: "levelsInv s \<Longrightarrow> phase s = Playing \<Longrightarrow> \<exists>lv. level_at (levelIndex s) = Some lv"
  unfolding levelsInv_def by auto

lemma levelsInv_tick:
  "levelsInv s \<Longrightarrow> intervals s h = Some (d, TickCb idx st sc) \<Longrightarrow>
   idx = levelIndex s \<and> tickTimer s = Some h \<and> d = 250 \<and> phase s = Playing"
  unfolding levelsInv_def by blast

lemma levelsInv_spawn:
  "levelsInv s \<Longrightarrow> intervals s h = Some (d, SpawnCb idx) \<Longrightarrow>
   idx = levelIndex s \<and> spawnTimer s = Some h \<and> phase s = Playing \<and>
   (\<exists>lv. level_at idx = Some lv \<and> d = spawnEveryMs lv)"
  unfolding levelsInv_def by blast

lemma levelsInv_startLevel:
  assumes "levelsInv s" and "level_at idx = Some lv"
  shows "levelsInv (snd (startLevel idx now s))"
proof -
  have d: "\<And>h. dropTimers s h = None" by (rule levelsInv_dropped[OF assms(1)])
  have "dropTimers s = (\<lambda>h. None)" using d by (simp add: fun_eq_iff)
  then show ?thesis
    using assms(2) by (auto simp: startLevel_eq[OF assms(2)] levelsInv_def)
qed

lemma levelsInv_endLevel:
  assumes "levelsInv s"
  shows "levelsInv (snd (endLevel sc idx (s\<lparr>timeLeft := v\<rparr>)))"
proof (rule levelsInv_empty)
  fix h
  have d: "dropTimers s h = None" by (rule levelsInv_dropped[OF assms])
  show "intervals (snd (endLevel sc idx (s\<lparr>timeLeft := v\<rparr>))) h = None"
    by (cases "level_at idx") (simp_all add: endLevel_invalid clearTimers_eq endLevel_eq d)
next
  assume p: "phase (snd (endLevel sc idx (s\<lparr>timeLeft := v\<rparr>))) = Playing"
  show "level_at (levelIndex (snd (endLevel sc idx (s\<lparr>timeLeft := v\<rparr>)))) \<noteq> None"
  proof (cases "level_at idx")
    case None
    then have "phase s = Playing" using p by (simp add: endLevel_invalid clearTimers_eq)
    then show ?thesis using assms None levelsInv_level[of s]
      by (auto simp: endLevel_invalid clearTimers_eq)
  next
    case (Some lv)
    then show ?thesis using p by (simp add: endLevel_eq[OF Some] split: if_splits)
  qed
qed

lemma levelsInv_quit: "levelsInv s \<Longrightarrow> levelsInv (quit s)"
  by (rule levelsInv_empty)
     (simp_all add: quit_def clearHearts_eq clearTimers_eq levelsInv_dropped)

lemma levelsInv_tick_step:
  assumes "levelsInv s"
  shows "levelsInv (snd (tick idx st sc now s))"
proof (cases "level_at idx")
  case None
  then show ?thesis using assms by (simp add: tick_def)
next
  case (Some lv)
  have "levelsInv (s\<lparr>timeLeft := ceilSec (durationMs lv - (now - st))\<rparr>)"
    by (rule levelsInv_cong[OF _ _ _ _ _ assms]) simp_all
  then show ?thesis
    by (simp add: tick_eq[OF Some] levelsInv_endLevel[OF assms])
qed

lemma levelsInv_spawnHeart: "levelsInv s \<Longrightarrow> levelsInv (snd (spawnHeart idx u r1 r2 s))"
  by (erule levelsInv_cong[rotated -1])
     (cases "level_at idx"; simp add: spawnHeart_def Let_def)+

lemma levelsInv_animEnd: "levelsInv s \<Longrightarrow> levelsInv (animEnd a s)"
  by (erule levelsInv_cong[rotated -1]) (simp_all add: animEnd_def split: option.splits)

lemma levelsInv_onTapHeart: "levelsInv s \<Longrightarrow> levelsInv (onTapHeart i s)"
  by (erule levelsInv_cong[rotated -1])
     (simp_all add: onTapHeart_def animStop_eq Let_def split: option.splits)

lemma level_at_succ:
  "level_at i \<noteq> None \<Longrightarrow> i < int (length LEVELS) - 1 \<Longrightarrow> \<exists>lv. level_at (i + 1) = Some lv"
  by (auto simp: level_at_def split: if_splits)

lemma levelsInv_step:
  assumes "levelsInv s"
  shows "levelsInv (step e s)"
proof (cases e)
  case (PressStart t)
  have "\<exists>lv. level_at 0 = Some lv" by (simp add: level_at_def LEVELS_def)
  then show ?thesis using PressStart assms levelsInv_startLevel[OF assms] by auto
next
  case (PressNext t)
  show ?thesis
  proof (cases "rewardView s \<and> success s \<and> levelIndex s < int (length LEVELS) - 1")
    case True
    then obtain lv where "level_at (levelIndex s + 1) = Some lv"
      using level_at_succ[of "levelIndex s"] by (auto simp: rewardView_def)
    from levelsInv_startLevel[OF assms this] show ?thesis using True PressNext by simp
  next
    case False
    then show ?thesis using PressNext assms by auto
  qed
next
  case (PressRetry t)
  show ?thesis
  proof (cases "rewardView s \<and> \<not> success s")
    case True
    then obtain lv where "level_at (levelIndex s) = Some lv"
      by (auto simp: rewardView_def)
    from levelsInv_startLevel[OF assms this] show ?thesis using True PressRetry by simp
  next
    case False
    then show ?thesis using PressRetry assms by auto
  qed
next
  case PressOpen
  show ?thesis
  proof (cases "rewardView s \<and> success s \<and> \<not> levelIndex s < int (length LEVELS) - 1")
    case True
    then have "phase s \<noteq> Playing" by (simp add: rewardView_def)
    then have "\<And>h. intervals s h = None" using assms levelsInv_idle by blast
    then have "levelsInv (s\<lparr>phase := Proposal\<rparr>)" by (intro levelsInv_empty) simp_all
    then show ?thesis using True PressOpen by simp
  next
    case False
    then show ?thesis using PressOpen assms by auto
  qed
next
  case PressBack
  then show ?thesis using assms by (simp add: levelsInv_quit)
next
  case PressYes
  have "levelsInv (s\<lparr>successHaptics := successHaptics s + 1\<rparr>)"
    by (rule levelsInv_cong[OF _ _ _ _ _ assms]) simp_all
  then show ?thesis using PressYes assms by simp
next
  case PressQuit
  then show ?thesis using assms by (simp add: levelsInv_quit)
next
  case PressFinish
  have "levelsInv (snd (endLevel (score s) (levelIndex s) (s\<lparr>timeLeft := timeLeft s\<rparr>)))"
    by (rule levelsInv_endLevel[OF assms])
  then show ?thesis using PressFinish assms by (simp add: finish_def)
next
  case (Tap i)
  then show ?thesis using assms by (simp add: levelsInv_onTapHeart)
next
  case (ClockFire h t)
  then show ?thesis using assms
    by (simp add: levelsInv_tick_step split: option.splits Callback.splits)
next
  case (SpawnFire h u r1 r2)
  then show ?thesis using assms
    by (simp add: levelsInv_spawnHeart split: option.splits Callback.splits)
next
  case (AnimEnd a)
  then show ?thesis using assms by (simp add: levelsInv_animEnd)
next
  case (TimeoutFire h)
  have "levelsInv (clearHearts (s\<lparr>timeouts := removeAll h (timeouts s)\<rparr>))"
    by (rule levelsInv_cong[OF _ _ _ _ _ assms]) (simp_all add: clearHearts_eq)
  then show ?thesis using TimeoutFire assms by simp
qed

lemma levelsInv_run: "levelsInv (run initial evs)"
proof (induction evs rule: rev_induct)
  case Nil
  show ?case by (simp add: run_def levelsInv_def initial_def)
next
  case (snoc e evs)
  then show ?case by (simp add: run_snoc levelsInv_step)
qed

subsection \<open>The end of a level and the reward screen\<close>

lemma resolved_eq:
  assumes "level_at (levelIndex s) = Some lv"
  shows "resolved sc s =
      s\<lparr>intervals := dropTimers s, spawnTimer := None, tickTimer := None,
        successHaptics := (if target lv \<le> sc then successHaptics s + 1 else successHaptics s),
        timeouts := timeouts s @ [nextTimer s], nextTimer := nextTimer s + 1,
        phase := (if target lv \<le> sc \<and> \<not> levelIndex s < int (length LEVELS) - 1
                  then Proposal else Reward)\<rparr>"
  by (simp add: resolved_def endLevel_eq[OF assms])

lemma level_at_bound: "level_at i = Some lv \<Longrightarrow> i < int (length LEVELS)"
  by (simp add: level_at_def split: if_splits)

lemma resolved_final:
  assumes "level_at (levelIndex s) = Some lv" and "target lv \<le> score s"
    and "levelIndex s = int (length LEVELS) - 1"
  shows "(target lv \<le> sc \<longrightarrow> phase (resolved sc s) = Proposal) \<and>
         (sc < target lv \<longrightarrow>
            phase (resolved sc s) = Reward \<and>
            step PressOpen (resolved sc s) = (resolved sc s)\<lparr>phase := Proposal\<rparr> \<and>
            step (PressNext t) (resolved sc s) = resolved sc s \<and>
            step (PressRetry t) (resolved sc s) = resolved sc s)"
  using assms
  by (simp add: resolved_eq[OF assms(1)] rewardView_def success_def)

lemma resolved_not_final:
  assumes "level_at (levelIndex s) = Some lv" and "target lv \<le> score s"
    and "levelIndex s \<noteq> int (length LEVELS) - 1"
  shows "phase (resolved sc s) = Reward \<and>
         step PressOpen (resolved sc s) = resolved sc s \<and>
         step (PressRetry t) (resolved sc s) = resolved sc s \<and>
         step (PressNext t) (resolved sc s) =
           snd (startLevel (levelIndex s + 1) t (resolved sc s)) \<and>
         phase (step (PressNext t) (resolved sc s)) = Playing \<and>
         levelIndex (step (PressNext t) (resolved sc s)) = levelIndex s + 1"
proof -
  have lt: "levelIndex s < int (length LEVELS) - 1"
    using level_at_bound[OF assms(1)] assms(3) by simp
  have "level_at (levelIndex s) \<noteq> None" using assms(1) by simp
  from level_at_succ[OF this lt] obtain lv' where n: "level_at (levelIndex s + 1) = Some lv'"
    by blast
  have st: "step (PressNext t) (resolved sc s) =
           snd (startLevel (levelIndex s + 1) t (resolved sc s))"
    using assms lt by (simp add: resolved_eq[OF assms(1)] rewardView_def success_def)
  have "phase (snd (startLevel (levelIndex s + 1) t (resolved sc s))) = Playing \<and>
        levelIndex (snd (startLevel (levelIndex s + 1) t (resolved sc s))) = levelIndex s + 1"
    by (simp add: startLevel_eq[OF n])
  moreover have "phase (resolved sc s) = Reward \<and>
         step PressOpen (resolved sc s) = resolved sc s \<and>
         step (PressRetry t) (resolved sc s) = resolved sc s"
    using assms lt by (simp add: resolved_eq[OF assms(1)] rewardView_def success_def)
  ultimately show ?thesis using st by simp
qed

lemma finish_resolved: "phase s = Playing \<Longrightarrow> step PressFinish s = resolved (score s) s"
  by (simp add: finish_def resolved_def)

lemma expiry_resolved:
  assumes "level_at (levelIndex s) = Some lv"
    and "intervals s h = Some (d, TickCb (levelIndex s) st c)" and "durationMs lv \<le> now - st"
  shows "step (ClockFire h now) s = resolved c (s\<lparr>timeLeft := 0\<rparr>)"
  using assms by (simp add: tick_eq[OF assms(1)] resolved_def)

lemma tick_of_level:
  "intervals (run initial evs) h = Some (d, TickCb i st c) \<Longrightarrow> levelIndex (run initial evs) = i"
  using levelsInv_tick[OF levelsInv_run] by blast

subsection \<open>The remaining time under a clock that is not set back\<close>


subsection \<open>How a heart leaves the list\<close>

lemma run_Cons: "run s (e # es) = run (step e s) es"
  by (simp add: run_def)

lemma ways_snoc:
  "ways a s (evs @ [e]) =
     ways a s evs @ (case leaves a e (run s evs) of None \<Rightarrow> [] | Some w \<Rightarrow> [w])"
  by (induction evs arbitrary: s) (simp_all add: run_def)

lemma spawnHeart_cases:
  "(hearts (snd (spawnHeart idx u r1 r2 s)) = hearts s \<and>
    nextAnim (snd (spawnHeart idx u r1 r2 s)) = nextAnim s) \<or>
   (\<exists>x. hearts (snd (spawnHeart idx u r1 r2 s)) = hearts s @ [x] \<and>
       hanim x = nextAnim s \<and>
       nextAnim (snd (spawnHeart idx u r1 r2 s)) = nextAnim s + 1)"
  by (simp add: spawnHeart_def Let_def split: option.splits)

lemma step_spawn:
  "step (SpawnFire k u r1 r2) s = s \<or>
   (\<exists>idx. step (SpawnFire k u r1 r2) s = snd (spawnHeart idx u r1 r2 s))"
  by (auto split: option.splits Callback.splits)

lemma step_spawn_keeps: "set (hearts s) \<subseteq> set (hearts (step (SpawnFire k u r1 r2) s))"
  using step_spawn[of k u r1 r2 s] spawnHeart_cases[of _ u r1 r2 s]
  by (metis Un_upper1 set_append subset_refl)

lemma step_hearts_cases:
  "(set (hearts (step e s)) \<subseteq> set (hearts s) \<and> nextAnim (step e s) = nextAnim s) \<or>
   (\<exists>x. hearts (step e s) = hearts s @ [x] \<and> hanim x = nextAnim s \<and>
        nextAnim (step e s) = nextAnim s + 1)"
proof (cases e)
  case (SpawnFire k u r1 r2)
  from step_spawn[of k u r1 r2 s] show ?thesis
  proof
    assume "step (SpawnFire k u r1 r2) s = s"
    then show ?thesis using SpawnFire by simp
  next
    assume "\<exists>idx. step (SpawnFire k u r1 r2) s = snd (spawnHeart idx u r1 r2 s)"
    then obtain idx where "step e s = snd (spawnHeart idx u r1 r2 s)"
      using SpawnFire by blast
    then show ?thesis using spawnHeart_cases[of idx u r1 r2 s] by auto
  qed
next
  case (ClockFire k t)
  then show ?thesis by (simp add: hearts_tick anims_tick split: option.splits Callback.splits)
next
  case (Tap i)
  have "nextAnim (onTapHeart i s) = nextAnim s"
    by (simp add: onTapHeart_def animStop_eq Let_def split: option.splits)
  then show ?thesis using Tap hearts_onTapHeart[of i s] by auto
next
  case (AnimEnd b)
  have "nextAnim (animEnd b s) = nextAnim s"
    by (simp add: animEnd_def split: option.splits)
  then show ?thesis using AnimEnd hearts_animEnd[of b s] by auto
next
  case (PressStart t)
  have "\<And>idx. nextAnim (snd (startLevel idx t s)) = nextAnim s"
    by (simp add: startLevel_def Let_def clearHearts_eq clearTimers_eq setInterval_def split: option.splits)
  then show ?thesis using PressStart by (simp add: hearts_startLevel)
next
  case (PressNext t)
  have "\<And>idx. nextAnim (snd (startLevel idx t s)) = nextAnim s"
    by (simp add: startLevel_def Let_def clearHearts_eq clearTimers_eq setInterval_def split: option.splits)
  then show ?thesis using PressNext by (simp add: hearts_startLevel)
next
  case (PressRetry t)
  have "\<And>idx. nextAnim (snd (startLevel idx t s)) = nextAnim s"
    by (simp add: startLevel_def Let_def clearHearts_eq clearTimers_eq setInterval_def split: option.splits)
  then show ?thesis using PressRetry by (simp add: hearts_startLevel)
qed (simp_all add: quit_def clearHearts_eq clearTimers_eq finish_def anims_endLevel hearts_endLevel)

lemma onList_fresh: "heartsInv s \<Longrightarrow> onList a s \<Longrightarrow> a < nextAnim s"
  by (auto simp: heartsInv_def onList_def)

lemma ways_once_step:
  assumes hi: "heartsInv s"
    and P: "(onList a s \<longrightarrow> w = []) \<and> (\<not> onList a s \<and> a < nextAnim s \<longrightarrow> length w = 1) \<and>
            (nextAnim s \<le> a \<longrightarrow> w = [])"
    and w': "w' = w @ (case leaves a e s of None \<Rightarrow> [] | Some v \<Rightarrow> [v])"
  shows "(onList a (step e s) \<longrightarrow> w' = []) \<and>
         (\<not> onList a (step e s) \<and> a < nextAnim (step e s) \<longrightarrow> length w' = 1) \<and>
         (nextAnim (step e s) \<le> a \<longrightarrow> w' = [])"
proof -
  note c = step_hearts_cases[of e s]
  have mono: "nextAnim s \<le> nextAnim (step e s)" using c by auto
  show ?thesis
  proof (cases "onList a s")
    case True
    then have w: "w = []" and lt: "a < nextAnim s" using P onList_fresh[OF hi] by auto
    show ?thesis
    proof (cases "onList a (step e s)")
      case True
      then show ?thesis using \<open>onList a s\<close> w w' lt mono by (simp add: leaves_def)
    next
      case False
      then show ?thesis using \<open>onList a s\<close> w w' lt mono by (simp add: leaves_def)
    qed
  next
    case False
    then have lv: "leaves a e s = None" by (simp add: leaves_def)
    show ?thesis
    proof (cases "a < nextAnim s")
      case True
      then have "\<not> onList a (step e s)"
        using c False by (auto simp: onList_def)
      then show ?thesis using P False True lv w' mono by simp
    next
      case ge: False
      then have w: "w = []" using P by simp
      from c show ?thesis
      proof
        assume "set (hearts (step e s)) \<subseteq> set (hearts s) \<and> nextAnim (step e s) = nextAnim s"
        then show ?thesis using False ge w lv w' by (auto simp: onList_def)
      next
        assume "\<exists>x. hearts (step e s) = hearts s @ [x] \<and> hanim x = nextAnim s \<and>
                    nextAnim (step e s) = nextAnim s + 1"
        then obtain x where x: "hearts (step e s) = hearts s @ [x]" "hanim x = nextAnim s"
          "nextAnim (step e s) = nextAnim s + 1" by blast
        show ?thesis
        proof (cases "a = nextAnim s")
          case True
          then have "onList a (step e s)" using x by (simp add: onList_def)
          then show ?thesis using w lv w' by simp
        next
          case False
          then have "nextAnim (step e s) \<le> a" using ge x by simp
          moreover have "\<not> onList a (step e s)"
            using \<open>\<not> onList a s\<close> x False by (auto simp: onList_def)
          ultimately show ?thesis using w lv w' by simp
        qed
      qed
    qed
  qed
qed

lemma ways_once_run:
  "(onList a (run initial evs) \<longrightarrow> ways a initial evs = []) \<and>
   (\<not> onList a (run initial evs) \<and> a < nextAnim (run initial evs) \<longrightarrow>
      length (ways a initial evs) = 1) \<and>
   (nextAnim (run initial evs) \<le> a \<longrightarrow> ways a initial evs = [])"
proof (induction evs rule: rev_induct)
  case Nil
  show ?case by (simp add: run_def onList_def initial_def)
next
  case (snoc e evs)
  show ?case
    unfolding run_snoc
    by (rule ways_once_step[OF heartsInv_run snoc.IH]) (simp add: ways_snoc)
qed

lemma ways_exactly_once:
  "length (ways a initial evs) \<le> 1 \<and>
   (length (ways a initial evs) = 1 \<longleftrightarrow>
      a < nextAnim (run initial evs) \<and> \<not> onList a (run initial evs))"
proof -
  note P = ways_once_run[of a evs]
  note f = onList_fresh[OF heartsInv_run, of a evs]
  show ?thesis
  proof (cases "onList a (run initial evs)")
    case True
    then show ?thesis using P by simp
  next
    case False
    then show ?thesis using P by (cases "a < nextAnim (run initial evs)") auto
  qed
qed

lemma leaves_tap:
  assumes "leaves a (Tap i) s = Some w"
  shows "w = ByTap \<and> score (step (Tap i) s) = score s + 1"
proof -
  from assms have w: "w = ByTap" and ch: "onList a s" "\<not> onList a (step (Tap i) s)"
    by (auto simp: leaves_def split: if_splits)
  have "phase s = Playing \<and> i \<in> hid ` set (hearts s)"
  proof (rule ccontr)
    assume "\<not> (phase s = Playing \<and> i \<in> hid ` set (hearts s))"
    then have "hearts (step (Tap i) s) = hearts s"
      by (auto simp: onTapHeart_absent)
    with ch show False by (simp add: onList_def)
  qed
  then obtain h where "phase s = Playing" "find (\<lambda>x. hid x = i) (hearts s) = Some h"
    using present_find by blast
  then show ?thesis using w by (simp add: onTapHeart_present)
qed

lemma leaves_miss:
  assumes "leaves a (AnimEnd b) s = Some w"
  shows "w = ByMiss \<and> score (step (AnimEnd b) s) = score s"
  using assms by (auto simp: leaves_def animEnd_def split: if_splits option.splits)

lemma leaves_clear:
  assumes "leaves a e s = Some w" and "\<forall>i. e \<noteq> Tap i" and "\<forall>b. e \<noteq> AnimEnd b"
  shows "w = ByClear \<and> hearts (step e s) = [] \<and>
         (score (step e s) = score s \<or> score (step e s) = 0)"
proof -
  from assms(1) have ch: "onList a s" "\<not> onList a (step e s)"
    and w: "w = (case e of Tap i \<Rightarrow> ByTap | AnimEnd b \<Rightarrow> ByMiss | _ \<Rightarrow> ByClear)"
    by (auto simp: leaves_def split: if_splits)
  have ne: "hearts (step e s) \<noteq> hearts s" using ch by (auto simp: onList_def)
  have sc: "\<And>idx t. score (snd (startLevel idx t s)) = 0"
    by (simp add: startLevel_def Let_def clearHearts_eq clearTimers_eq setInterval_def split: option.splits)
  show ?thesis
  proof (cases e)
    case (PressStart t)
    then show ?thesis using ne w by (auto simp: hearts_startLevel sc split: if_splits)
  next
    case (PressNext t)
    then show ?thesis using ne w by (auto simp: hearts_startLevel sc split: if_splits)
  next
    case (PressRetry t)
    then show ?thesis using ne w by (auto simp: hearts_startLevel sc split: if_splits)
  next
    case PressOpen
    then show ?thesis using ne by (auto split: if_splits)
  next
    case PressBack
    then show ?thesis using ne w
      by (auto simp: quit_def clearHearts_eq clearTimers_eq split: if_splits)
  next
    case PressYes
    then show ?thesis using ne by (auto split: if_splits)
  next
    case PressQuit
    then show ?thesis using ne w
      by (auto simp: quit_def clearHearts_eq clearTimers_eq split: if_splits)
  next
    case PressFinish
    then show ?thesis using ne by (auto simp: finish_def hearts_endLevel split: if_splits)
  next
    case (Tap i)
    then show ?thesis using assms(2) by simp
  next
    case (ClockFire k t)
    then show ?thesis using ne by (auto simp: hearts_tick split: option.splits Callback.splits)
  next
    case (SpawnFire k u r1 r2)
    from step_spawn_keeps[of s k u r1 r2] ch have False
      unfolding SpawnFire onList_def by auto
    then show ?thesis ..
  next
    case (AnimEnd b)
    then show ?thesis using assms(3) by simp
  next
    case (TimeoutFire k)
    then show ?thesis using ne w by (auto simp: clearHearts_eq split: if_splits)
  qed
qed

lemma liveInv_cong:
  "hearts s' = hearts s \<Longrightarrow> anims s' = anims s \<Longrightarrow> liveInv s \<Longrightarrow> liveInv s'"
  by (simp add: liveInv_def)

lemma liveInv_empty: "hearts s = [] \<Longrightarrow> liveInv s"
  by (simp add: liveInv_def)

lemma liveInv_own:
  "liveInv s \<Longrightarrow> x \<in> set (hearts s) \<Longrightarrow>
   \<exists>an. anims s (hanim x) = Some an \<and> a_status an = Running \<and> a_owner an = hid x"
  unfolding liveInv_def by blast

lemma liveInv_same_anim:
  assumes "liveInv s" and "x \<in> set (hearts s)" and "y \<in> set (hearts s)"
    and "hanim y = hanim x"
  shows "hid y = hid x"
  using liveInv_own[OF assms(1,2)] liveInv_own[OF assms(1,3)] assms(4) by auto

lemma liveInv_spawnHeart:
  assumes "liveInv s" and "heartsInv s"
  shows "liveInv (snd (spawnHeart idx u r1 r2 s))"
proof (cases "level_at idx")
  case None
  then show ?thesis using assms(1) by (simp add: spawnHeart_def)
next
  case (Some lv)
  show ?thesis
    unfolding liveInv_def
  proof
    fix x assume "x \<in> set (hearts (snd (spawnHeart idx u r1 r2 s)))"
    then have "x \<in> set (hearts s) \<or> x = \<lparr>hid = u, hsize = 28 + r1, hanim = nextAnim s\<rparr>"
      by (auto simp: spawnHeart_def Let_def Some)
    then show "\<exists>an. anims (snd (spawnHeart idx u r1 r2 s)) (hanim x) = Some an \<and>
              a_status an = Running \<and> a_owner an = hid x"
    proof
      assume x: "x \<in> set (hearts s)"
      then have "hanim x \<noteq> nextAnim s" using assms(2) by (auto simp: heartsInv_def)
      then show ?thesis using liveInv_own[OF assms(1) x]
        by (simp add: spawnHeart_def Let_def Some)
    next
      assume "x = \<lparr>hid = u, hsize = 28 + r1, hanim = nextAnim s\<rparr>"
      then show ?thesis by (simp add: spawnHeart_def Let_def Some)
    qed
  qed
qed

lemma liveInv_animEnd:
  assumes "liveInv s"
  shows "liveInv (animEnd b s)"
proof (cases "anims s b")
  case None
  then show ?thesis using assms by (simp add: animEnd_def)
next
  case (Some an)
  show ?thesis
  proof (cases "a_status an = Running")
    case False
    then show ?thesis using assms Some by (simp add: animEnd_def)
  next
    case True
    show ?thesis
      unfolding liveInv_def
    proof
      fix x assume "x \<in> set (hearts (animEnd b s))"
      then have x: "x \<in> set (hearts s)" and ne: "hid x \<noteq> a_owner an"
        using Some True by (auto simp: animEnd_def)
      from liveInv_own[OF assms x] obtain ax where ax: "anims s (hanim x) = Some ax"
        "a_status ax = Running" "a_owner ax = hid x" by blast
      then have "hanim x \<noteq> b" using Some ne by auto
      then show "\<exists>an. anims (animEnd b s) (hanim x) = Some an \<and>
              a_status an = Running \<and> a_owner an = hid x"
        using ax Some True by (simp add: animEnd_def)
    qed
  qed
qed

lemma liveInv_onTapHeart:
  assumes "liveInv s"
  shows "liveInv (onTapHeart i s)"
proof (cases "find (\<lambda>x. hid x = i) (hearts s)")
  case None
  then have "i \<notin> hid ` set (hearts s)" by (simp add: find_None_hid)
  then show ?thesis using assms
    by (intro liveInv_cong[OF _ _ assms]) (simp_all add: onTapHeart_absent)
next
  case (Some h)
  then have h: "h \<in> set (hearts s)" "hid h = i"
    by (auto simp: find_Some_iff in_set_conv_nth)
  show ?thesis
    unfolding liveInv_def
  proof
    fix x assume "x \<in> set (hearts (onTapHeart i s))"
    then have x: "x \<in> set (hearts s)" and ne: "hid x \<noteq> i"
      by (auto simp: onTapHeart_present[OF Some])
    have "hanim x \<noteq> hanim h"
      using liveInv_same_anim[OF assms h(1) x] ne h(2) by auto
    then show "\<exists>an. anims (onTapHeart i s) (hanim x) = Some an \<and>
              a_status an = Running \<and> a_owner an = hid x"
      using liveInv_own[OF assms x] by (simp add: onTapHeart_present[OF Some] stopAll_def)
  qed
qed

lemma liveInv_step:
  assumes "liveInv s" and "heartsInv s"
  shows "liveInv (step e s)"
proof (cases e)
  case (SpawnFire k u r1 r2)
  from step_spawn[of k u r1 r2 s] show ?thesis
    using assms liveInv_spawnHeart[OF assms] SpawnFire by auto
next
  case (ClockFire k t)
  have "\<And>idx st sc. liveInv (snd (tick idx st sc t s))"
    by (rule liveInv_cong[OF _ _ assms(1)]) (simp_all add: hearts_tick anims_tick)
  then show ?thesis using ClockFire assms(1) by (simp split: option.splits Callback.splits)
next
  case (Tap i)
  then show ?thesis using assms(1) by (simp add: liveInv_onTapHeart)
next
  case (AnimEnd b)
  then show ?thesis using assms(1) by (simp add: liveInv_animEnd)
next
  case PressFinish
  have "liveInv (snd (finish s))"
    by (rule liveInv_cong[OF _ _ assms(1)]) (simp_all add: finish_def hearts_endLevel anims_endLevel)
  then show ?thesis using PressFinish assms(1) by simp
next
  case PressOpen
  have "liveInv (s\<lparr>phase := Proposal\<rparr>)" by (rule liveInv_cong[OF _ _ assms(1)]) simp_all
  then show ?thesis using PressOpen assms(1) by simp
next
  case PressYes
  have "liveInv (s\<lparr>successHaptics := successHaptics s + 1\<rparr>)"
    by (rule liveInv_cong[OF _ _ assms(1)]) simp_all
  then show ?thesis using PressYes assms(1) by simp
qed (use assms(1) in \<open>simp_all add: liveInv_empty hearts_startLevel quit_def clearHearts_eq\<close>)

lemma liveInv_run: "liveInv (run initial evs)"
proof (induction evs rule: rev_induct)
  case Nil
  show ?case by (simp add: run_def liveInv_def initial_def)
next
  case (snoc e evs)
  then show ?case by (simp add: run_snoc liveInv_step heartsInv_run)
qed

lemma fall_end_removes:
  assumes "liveInv s" and "x \<in> set (hearts s)"
  shows "leaves (hanim x) (AnimEnd (hanim x)) s = Some ByMiss \<and>
         x \<notin> set (hearts (step (AnimEnd (hanim x)) s)) \<and>
         score (step (AnimEnd (hanim x)) s) = score s"
proof -
  from liveInv_own[OF assms] obtain an where an: "anims s (hanim x) = Some an"
    "a_status an = Running" "a_owner an = hid x" by blast
  have h: "hearts (animEnd (hanim x) s) = filter (\<lambda>h. hid h \<noteq> hid x) (hearts s)"
    and sc: "score (animEnd (hanim x) s) = score s"
    using an by (simp_all add: animEnd_def)
  have "\<not> onList (hanim x) (animEnd (hanim x) s)"
  proof
    assume "onList (hanim x) (animEnd (hanim x) s)"
    then obtain y where y: "y \<in> set (hearts s)" "hid y \<noteq> hid x" "hanim y = hanim x"
      unfolding onList_def h by auto
    from liveInv_same_anim[OF assms y(1) y(3)] y(2) show False by simp
  qed
  moreover have "onList (hanim x) s" using assms(2) by (auto simp: onList_def)
  ultimately show ?thesis using h sc by (simp add: leaves_def)
qed

lemma tap_removes:
  assumes "liveInv s" and "x \<in> set (hearts s)" and "phase s = Playing"
  shows "leaves (hanim x) (Tap (hid x)) s = Some ByTap \<and>
         x \<notin> set (hearts (step (Tap (hid x)) s)) \<and>
         score (step (Tap (hid x)) s) = score s + 1"
proof -
  have "hid x \<in> hid ` set (hearts s)" using assms(2) by simp
  then obtain h where f: "find (\<lambda>y. hid y = hid x) (hearts s) = Some h"
    using present_find by blast
  have h: "hearts (onTapHeart (hid x) s) = filter (\<lambda>h. hid h \<noteq> hid x) (hearts s)"
    and sc: "score (onTapHeart (hid x) s) = score s + 1"
    by (simp_all add: onTapHeart_present[OF f])
  have "\<not> onList (hanim x) (onTapHeart (hid x) s)"
  proof
    assume "onList (hanim x) (onTapHeart (hid x) s)"
    then obtain y where y: "y \<in> set (hearts s)" "hid y \<noteq> hid x" "hanim y = hanim x"
      unfolding onList_def h by auto
    from liveInv_same_anim[OF assms(1,2) y(1) y(3)] y(2) show False by simp
  qed
  moreover have "onList (hanim x) s" using assms(2) by (auto simp: onList_def)
  ultimately show ?thesis using h sc assms(3) by (simp add: leaves_def)
qed

subsection \<open>Pending time-outs\<close>

lemma toInv_cong:
  "timeouts s' = timeouts s \<Longrightarrow> nextTimer s' = nextTimer s \<Longrightarrow> intervals s' = intervals s \<Longrightarrow>
   toInv s \<Longrightarrow> toInv s'"
  by (simp add: toInv_def)

lemma dropTimers_None: "intervals s k = None \<Longrightarrow> dropTimers s k = None"
  by (simp add: dropTimers_def)

lemma timersInv_fresh: "timersInv s \<Longrightarrow> nextTimer s \<le> h \<Longrightarrow> intervals s h = None"
  by (simp add: timersInv_def)

lemma toInv_startLevel: "toInv s \<Longrightarrow> toInv (snd (startLevel idx now s))"
proof (cases "level_at idx")
  case None
  assume "toInv s"
  then show ?thesis
    by (auto simp: toInv_def startLevel_def Let_def None clearHearts_eq clearTimers_eq dropTimers_None)
next
  case (Some lv)
  assume "toInv s"
  then show ?thesis
    by (auto simp: toInv_def startLevel_eq[OF Some] dropTimers_None)
qed

lemma toInv_endLevel:
  assumes "toInv s" and "timersInv s"
  shows "toInv (snd (endLevel sc idx (s\<lparr>timeLeft := v\<rparr>)))"
proof (cases "level_at idx")
  case None
  then show ?thesis using assms(1)
    by (auto simp: toInv_def endLevel_invalid clearTimers_eq dropTimers_None)
next
  case (Some lv)
  have "intervals s (nextTimer s) = None" by (rule timersInv_fresh[OF assms(2)]) simp
  then show ?thesis using assms(1)
    by (auto simp: toInv_def endLevel_eq[OF Some] dropTimers_None)
qed

lemma toInv_quit: "toInv s \<Longrightarrow> toInv (quit s)"
  by (auto simp: toInv_def quit_def clearHearts_eq clearTimers_eq dropTimers_None)

lemma toInv_tick:
  assumes "toInv s" and "timersInv s"
  shows "toInv (snd (tick idx st sc now s))"
proof (cases "level_at idx")
  case None
  then show ?thesis using assms(1) by (simp add: tick_def)
next
  case (Some lv)
  have "toInv (s\<lparr>timeLeft := ceilSec (durationMs lv - (now - st))\<rparr>)"
    by (rule toInv_cong[OF _ _ _ assms(1)]) simp_all
  then show ?thesis by (simp add: tick_eq[OF Some] toInv_endLevel[OF assms])
qed

lemma toInv_step:
  assumes "toInv s" and "timersInv s"
  shows "toInv (step e s)"
proof (cases e)
  case (ClockFire h t)
  then show ?thesis using assms by (simp add: toInv_tick split: option.splits Callback.splits)
next
  case (SpawnFire h u r1 r2)
  have "\<And>idx. toInv (snd (spawnHeart idx u r1 r2 s))"
    by (rule toInv_cong[OF _ _ _ assms(1)]) (simp_all add: spawnHeart_def Let_def split: option.splits)
  then show ?thesis using SpawnFire assms(1) by (simp split: option.splits Callback.splits)
next
  case (Tap i)
  have "toInv (onTapHeart i s)"
    by (rule toInv_cong[OF _ _ _ assms(1)])
       (simp_all add: onTapHeart_def animStop_eq Let_def split: option.splits)
  then show ?thesis using Tap assms(1) by simp
next
  case (AnimEnd b)
  have "toInv (animEnd b s)"
    by (rule toInv_cong[OF _ _ _ assms(1)]) (simp_all add: animEnd_def split: option.splits)
  then show ?thesis using AnimEnd by simp
next
  case PressFinish
  have "toInv (snd (endLevel (score s) (levelIndex s) (s\<lparr>timeLeft := timeLeft s\<rparr>)))"
    by (rule toInv_endLevel[OF assms])
  then show ?thesis using PressFinish assms(1) by (simp add: finish_def)
next
  case PressOpen
  have "toInv (s\<lparr>phase := Proposal\<rparr>)" by (rule toInv_cong[OF _ _ _ assms(1)]) simp_all
  then show ?thesis using PressOpen assms(1) by simp
next
  case PressYes
  have "toInv (s\<lparr>successHaptics := successHaptics s + 1\<rparr>)"
    by (rule toInv_cong[OF _ _ _ assms(1)]) simp_all
  then show ?thesis using PressYes assms(1) by simp
next
  case (TimeoutFire h)
  have "toInv (clearHearts (s\<lparr>timeouts := removeAll h (timeouts s)\<rparr>))"
    using assms(1) by (auto simp: toInv_def clearHearts_eq)
  then show ?thesis using TimeoutFire assms(1) by simp
qed (use assms(1) in \<open>simp_all add: toInv_startLevel toInv_quit\<close>)

lemma toInv_initial: "toInv initial"
  by (simp add: toInv_def initial_def)

lemma spawn_delay: "level_at idx = Some lv \<Longrightarrow> 250 < spawnEveryMs lv"
  by (drule level_at_cases) (auto simp: LEVELS_def)

subsection \<open>Timers in due order\<close>

lemma dueInvI:
  assumes "\<And>k. k \<in> set (timeouts s) \<Longrightarrow> D k \<le> T + 250"
    and "phase s = Playing \<Longrightarrow> timeouts s = [] \<or>
         (hearts s = [] \<and>
          (\<exists>sp d idx. spawnTimer s = Some sp \<and> intervals s sp = Some (d, SpawnCb idx) \<and>
             (\<forall>k \<in> set (timeouts s). D k < D sp)))"
    and "phase s \<noteq> Playing \<Longrightarrow> hearts s = [] \<or> length (timeouts s) \<le> 1"
  shows "dueInv T D s"
  using assms unfolding dueInv_def by blast

lemma dueInv_A: "dueInv T D s \<Longrightarrow> k \<in> set (timeouts s) \<Longrightarrow> D k \<le> T + 250"
  unfolding dueInv_def by blast

lemma dueInv_B:
  "dueInv T D s \<Longrightarrow> phase s = Playing \<Longrightarrow> timeouts s = [] \<or>
         (hearts s = [] \<and>
          (\<exists>sp d idx. spawnTimer s = Some sp \<and> intervals s sp = Some (d, SpawnCb idx) \<and>
             (\<forall>k \<in> set (timeouts s). D k < D sp)))"
  unfolding dueInv_def by blast

lemma dueInv_G:
  "dueInv T D s \<Longrightarrow> phase s \<noteq> Playing \<Longrightarrow> hearts s = [] \<or> length (timeouts s) \<le> 1"
  unfolding dueInv_def by blast

lemma rearm_other:
  "\<not> (nextTimer s \<le> h \<and> h < nextTimer (step e s)) \<Longrightarrow> fires e s \<noteq> Some h \<Longrightarrow>
   rearm D s t e h = D h"
  by (auto simp: rearm_def)

lemma rearm_new:
  "nextTimer s \<le> h \<Longrightarrow> h < nextTimer (step e s) \<Longrightarrow>
   rearm D s t e h = t + delayOf (step e s) h"
  by (simp add: rearm_def)

lemma rearm_fired: "fires e s = Some h \<Longrightarrow> rearm D s t e h = t + delayOf (step e s) h"
  by (simp add: rearm_def)

lemma fires_timeout:
  "intervals s k = None \<Longrightarrow> fires e s = Some k \<Longrightarrow> e = TimeoutFire k"
  by (cases e) (auto split: option.splits Callback.splits if_splits)

lemma toInv_mem: "toInv s \<Longrightarrow> k \<in> set (timeouts s) \<Longrightarrow> k < nextTimer s \<and> intervals s k = None"
  unfolding toInv_def by blast

lemma rearm_timeout:
  assumes "toInv s" and "k \<in> set (timeouts s)" and "e \<noteq> TimeoutFire k"
  shows "rearm D s t e k = D k"
proof -
  from toInv_mem[OF assms(1,2)] have lt: "k < nextTimer s" and n: "intervals s k = None"
    by simp_all
  have "fires e s \<noteq> Some k" using fires_timeout[OF n] assms(3) by blast
  then show ?thesis using lt by (simp add: rearm_other)
qed

text \<open>Steps that create no timer, keep the phase in or out of play, and add no heart.\<close>

lemma dueInv_frame:
  assumes di: "dueInv T D s" and le: "T \<le> t"
    and ts: "set (timeouts s') \<subseteq> set (timeouts s)"
    and tl: "length (timeouts s') \<le> length (timeouts s)"
    and ph: "(phase s' = Playing) = (phase s = Playing)"
    and sp: "spawnTimer s' = spawnTimer s" and iv: "intervals s' = intervals s"
    and he: "hearts s = [] \<Longrightarrow> hearts s' = []"
    and dk: "\<And>k. k \<in> set (timeouts s') \<Longrightarrow> D' k = D k"
    and ds: "\<And>p. spawnTimer s = Some p \<Longrightarrow> D p \<le> D' p"
  shows "dueInv t D' s'"
proof (rule dueInvI)
  fix k assume k: "k \<in> set (timeouts s')"
  then have "D k \<le> T + 250" using dueInv_A[OF di] ts by blast
  then show "D' k \<le> t + 250" using dk[OF k] le by simp
next
  assume "phase s' = Playing"
  then have p: "phase s = Playing" using ph by simp
  from dueInv_B[OF di p] show "timeouts s' = [] \<or>
         (hearts s' = [] \<and>
          (\<exists>sp d idx. spawnTimer s' = Some sp \<and> intervals s' sp = Some (d, SpawnCb idx) \<and>
             (\<forall>k \<in> set (timeouts s'). D' k < D' sp)))"
  proof
    assume "timeouts s = []"
    then show ?thesis using ts by simp
  next
    assume a: "hearts s = [] \<and>
          (\<exists>sp d idx. spawnTimer s = Some sp \<and> intervals s sp = Some (d, SpawnCb idx) \<and>
             (\<forall>k \<in> set (timeouts s). D k < D sp))"
    then obtain p d idx where q: "spawnTimer s = Some p" "intervals s p = Some (d, SpawnCb idx)"
      "\<forall>k \<in> set (timeouts s). D k < D p" by blast
    have "\<forall>k \<in> set (timeouts s'). D' k < D' p"
    proof
      fix k assume k: "k \<in> set (timeouts s')"
      then have "D k < D p" using q(3) ts by blast
      then show "D' k < D' p" using dk[OF k] ds[OF q(1)] by simp
    qed
    then show ?thesis using a he q sp iv by auto
  qed
next
  assume "phase s' \<noteq> Playing"
  then have "phase s \<noteq> Playing" using ph by simp
  from dueInv_G[OF di this] show "hearts s' = [] \<or> length (timeouts s') \<le> 1"
    using he tl by auto
qed

lemma rearm_id:
  "fires e s = None \<Longrightarrow> nextTimer (step e s) = nextTimer s \<Longrightarrow> rearm D s t e = D"
  by (simp add: rearm_def fun_eq_iff)

lemma dueInv_stay:
  assumes "dueInv T D s" and "T \<le> t" and "step e s = s" and "fires e s = None"
  shows "dueInv t (rearm D s t e) (step e s)"
proof -
  have "rearm D s t e = D" using assms(3,4) by (simp add: rearm_id)
  then show ?thesis
    using dueInv_frame[OF assms(1,2), of s D] assms(3) by simp
qed

lemma dueInv_start:
  assumes to: "toInv s" and di: "dueInv T D s" and le: "T \<le> t"
    and lv: "level_at idx = Some lv" and fr: "fires e s = None"
    and st: "step e s = snd (startLevel idx t0 s)"
  shows "dueInv t (rearm D s t e) (step e s)"
proof -
  let ?n = "nextTimer s"
  have f: "timeouts (step e s) = timeouts s" "phase (step e s) = Playing"
      "hearts (step e s) = []" "spawnTimer (step e s) = Some (?n + 1)"
      "intervals (step e s) (?n + 1) = Some (spawnEveryMs lv, SpawnCb idx)"
      "nextTimer (step e s) = ?n + 2"
    unfolding st by (simp_all add: startLevel_eq[OF lv])
  have old: "rearm D s t e k = D k" if "k \<in> set (timeouts s)" for k
  proof (rule rearm_other)
    show "\<not> (nextTimer s \<le> k \<and> k < nextTimer (step e s))"
      using toInv_mem[OF to that] by simp
    show "fires e s \<noteq> Some k" using fr by simp
  qed
  have new: "rearm D s t e (?n + 1) = t + spawnEveryMs lv"
    using f by (simp add: rearm_new delayOf_def)
  show ?thesis
  proof (rule dueInvI)
    fix k assume "k \<in> set (timeouts (step e s))"
    then have k: "k \<in> set (timeouts s)" using f by simp
    from dueInv_A[OF di k] show "rearm D s t e k \<le> t + 250" using old[OF k] le by simp
  next
    have "\<forall>k \<in> set (timeouts (step e s)). rearm D s t e k < rearm D s t e (?n + 1)"
    proof
      fix k assume "k \<in> set (timeouts (step e s))"
      then have k: "k \<in> set (timeouts s)" using f by simp
      from dueInv_A[OF di k] show "rearm D s t e k < rearm D s t e (?n + 1)"
        using old[OF k] new le spawn_delay[OF lv] by simp
    qed
    then show "timeouts (step e s) = [] \<or>
         (hearts (step e s) = [] \<and>
          (\<exists>sp d idx. spawnTimer (step e s) = Some sp \<and>
             intervals (step e s) sp = Some (d, SpawnCb idx) \<and>
             (\<forall>k \<in> set (timeouts (step e s)). rearm D s t e k < rearm D s t e sp)))"
      using f by blast
  next
    assume "phase (step e s) \<noteq> Playing"
    then show "hearts (step e s) = [] \<or> length (timeouts (step e s)) \<le> 1" using f by simp
  qed
qed

lemma dueInv_end:
  assumes ti: "timersInv s" and li: "levelsInv s" and to: "toInv s" and di: "dueInv T D s"
    and le: "T \<le> t" and lv: "level_at idx = Some lv" and ph: "phase s = Playing"
    and fr: "\<And>k. k \<in> set (timeouts s) \<Longrightarrow> fires e s \<noteq> Some k"
    and st: "step e s = snd (endLevel sc idx (s\<lparr>timeLeft := v\<rparr>))"
  shows "dueInv t (rearm D s t e) (step e s)"
proof -
  let ?n = "nextTimer s"
  have dr: "\<And>h. dropTimers s h = None" by (rule levelsInv_dropped[OF li])
  have f: "timeouts (step e s) = timeouts s @ [?n]" "phase (step e s) \<noteq> Playing"
      "hearts (step e s) = hearts s" "intervals (step e s) ?n = None"
      "nextTimer (step e s) = ?n + 1"
    unfolding st by (simp_all add: endLevel_eq[OF lv] dr)
  have old: "rearm D s t e k = D k" if "k \<in> set (timeouts s)" for k
  proof (rule rearm_other)
    show "\<not> (nextTimer s \<le> k \<and> k < nextTimer (step e s))"
      using toInv_mem[OF to that] by simp
    show "fires e s \<noteq> Some k" using fr[OF that] .
  qed
  have new: "rearm D s t e ?n = t + 250"
    using f by (simp add: rearm_new delayOf_def)
  show ?thesis
  proof (rule dueInvI)
    fix k assume "k \<in> set (timeouts (step e s))"
    then have "k \<in> set (timeouts s) \<or> k = ?n" using f by auto
    then show "rearm D s t e k \<le> t + 250"
    proof
      assume k: "k \<in> set (timeouts s)"
      from dueInv_A[OF di k] show ?thesis using old[OF k] le by simp
    next
      assume "k = ?n"
      then show ?thesis using new by simp
    qed
  next
    assume "phase (step e s) = Playing"
    then show "timeouts (step e s) = [] \<or>
         (hearts (step e s) = [] \<and>
          (\<exists>sp d idx. spawnTimer (step e s) = Some sp \<and>
             intervals (step e s) sp = Some (d, SpawnCb idx) \<and>
             (\<forall>k \<in> set (timeouts (step e s)). rearm D s t e k < rearm D s t e sp)))"
      using f by simp
  next
    show "hearts (step e s) = [] \<or> length (timeouts (step e s)) \<le> 1"
    proof (cases "hearts s = []")
      case True
      then show ?thesis using f by simp
    next
      case False
      then have "timeouts s = []" using dueInv_B[OF di ph] by blast
      then show ?thesis using f by simp
    qed
  qed
qed

lemma dueInv_quit:
  assumes di: "dueInv T D s" and le: "T \<le> t" and fr: "fires e s = None"
    and st: "step e s = quit s"
  shows "dueInv t (rearm D s t e) (step e s)"
proof -
  have f: "timeouts (quit s) = timeouts s" "phase (quit s) = Intro" "hearts (quit s) = []"
    "nextTimer (quit s) = nextTimer s"
    by (simp_all add: quit_def clearHearts_eq clearTimers_eq)
  have r: "rearm D s t e = D" using fr st f by (simp add: rearm_id)
  show ?thesis
    unfolding st r
  proof (rule dueInvI)
    fix k assume "k \<in> set (timeouts (quit s))"
    then have "D k \<le> T + 250" using dueInv_A[OF di] f by simp
    then show "D k \<le> t + 250" using le by simp
  qed (simp_all add: f)
qed

lemma level0: "\<exists>lv. level_at 0 = Some lv"
  by (simp add: level_at_def LEVELS_def)

lemma dueInv_step:
  assumes ti: "timersInv s" and li: "levelsInv s" and to: "toInv s" and di: "dueInv T D s"
    and le: "T \<le> t" and dl: "deliverable D s t e"
  shows "dueInv t (rearm D s t e) (step e s)"
proof (cases e)
  case (PressStart t0)
  show ?thesis
  proof (cases "phase s = Intro")
    case True
    obtain lv where lv: "level_at 0 = Some lv" using level0 by blast
    show ?thesis
      by (rule dueInv_start[OF to di le lv, of e t0]) (simp_all add: PressStart True)
  next
    case False
    show ?thesis by (rule dueInv_stay[OF di le]) (simp_all add: PressStart False)
  qed
next
  case (PressNext t0)
  show ?thesis
  proof (cases "rewardView s \<and> success s \<and> levelIndex s < int (length LEVELS) - 1")
    case True
    then obtain lv where lv: "level_at (levelIndex s + 1) = Some lv"
      using level_at_succ[of "levelIndex s"] by (auto simp: rewardView_def)
    show ?thesis
      by (rule dueInv_start[OF to di le lv, of e t0]) (simp_all add: PressNext True)
  next
    case False
    show ?thesis by (rule dueInv_stay[OF di le]) (use False in \<open>auto simp: PressNext\<close>)
  qed
next
  case (PressRetry t0)
  show ?thesis
  proof (cases "rewardView s \<and> \<not> success s")
    case True
    then obtain lv where lv: "level_at (levelIndex s) = Some lv"
      by (auto simp: rewardView_def)
    show ?thesis
      by (rule dueInv_start[OF to di le lv, of e t0]) (simp_all add: PressRetry True)
  next
    case False
    show ?thesis by (rule dueInv_stay[OF di le]) (use False in \<open>auto simp: PressRetry\<close>)
  qed
next
  case PressOpen
  show ?thesis
  proof (cases "rewardView s \<and> success s \<and> \<not> levelIndex s < int (length LEVELS) - 1")
    case True
    then have np: "phase s \<noteq> Playing" by (simp add: rewardView_def)
    have st: "step e s = s\<lparr>phase := Proposal\<rparr>" using True PressOpen by simp
    have r: "rearm D s t e = D" by (rule rearm_id) (simp_all add: PressOpen st[unfolded PressOpen])
    show ?thesis
      unfolding r st
      by (rule dueInv_frame[OF di le]) (simp_all add: np)
  next
    case False
    show ?thesis by (rule dueInv_stay[OF di le]) (use False in \<open>auto simp: PressOpen\<close>)
  qed
next
  case PressBack
  show ?thesis
  proof (cases "rewardView s")
    case True
    show ?thesis by (rule dueInv_quit[OF di le]) (simp_all add: PressBack True)
  next
    case False
    show ?thesis by (rule dueInv_stay[OF di le]) (simp_all add: PressBack False)
  qed
next
  case PressYes
  have r: "rearm D s t e = D" by (rule rearm_id) (simp_all add: PressYes)
  show ?thesis
    unfolding r
    by (rule dueInv_frame[OF di le]) (simp_all add: PressYes)
next
  case PressQuit
  show ?thesis
  proof (cases "phase s = Playing")
    case True
    show ?thesis by (rule dueInv_quit[OF di le]) (simp_all add: PressQuit True)
  next
    case False
    show ?thesis by (rule dueInv_stay[OF di le]) (simp_all add: PressQuit False)
  qed
next
  case PressFinish
  show ?thesis
  proof (cases "phase s = Playing")
    case True
    from levelsInv_level[OF li True] obtain lv where lv: "level_at (levelIndex s) = Some lv"
      by blast
    show ?thesis
      by (rule dueInv_end[OF ti li to di le lv True, of e "score s" "timeLeft s"])
         (simp_all add: PressFinish True finish_def)
  next
    case False
    show ?thesis by (rule dueInv_stay[OF di le]) (simp_all add: PressFinish False)
  qed
next
  case (Tap i)
  have r: "rearm D s t e = D"
    by (rule rearm_id)
       (simp_all add: Tap onTapHeart_def animStop_eq Let_def split: option.splits)
  have h: "hearts s = [] \<Longrightarrow> hearts (step e s) = []"
    using hearts_onTapHeart[of i s] by (auto simp: Tap)
  show ?thesis
    unfolding r
    by (rule dueInv_frame[OF di le])
       (use h in \<open>simp_all add: Tap onTapHeart_def animStop_eq Let_def split: option.splits\<close>)
next
  case (AnimEnd b)
  have r: "rearm D s t e = D"
    by (rule rearm_id) (simp_all add: AnimEnd animEnd_def split: option.splits)
  have h: "hearts s = [] \<Longrightarrow> hearts (step e s) = []"
    using hearts_animEnd[of b s] by (auto simp: AnimEnd)
  show ?thesis
    unfolding r
    by (rule dueInv_frame[OF di le])
       (use h in \<open>simp_all add: AnimEnd animEnd_def split: option.splits\<close>)
next
  case (ClockFire h now)
  from dl obtain f: "fires e s = Some h"
    by (auto simp: deliverable_def ClockFire split: option.splits Callback.splits)
  then obtain d idx st sc where iv: "intervals s h = Some (d, TickCb idx st sc)"
    by (auto simp: ClockFire split: option.splits Callback.splits)
  from levelsInv_tick[OF li iv] have ix: "idx = levelIndex s" and tt: "tickTimer s = Some h"
    and ph: "phase s = Playing" by simp_all
  from levelsInv_level[OF li ph] ix obtain lv where lv: "level_at idx = Some lv" by blast
  have stp: "step e s = snd (tick idx st sc now s)" using iv ClockFire by simp
  have nt: "\<And>k. k \<in> set (timeouts s) \<Longrightarrow> k \<noteq> h"
    using toInv_mem[OF to] iv by auto
  show ?thesis
  proof (cases "durationMs lv \<le> now - st")
    case True
    show ?thesis
    proof (rule dueInv_end[OF ti li to di le lv ph, of e sc 0])
      fix k assume "k \<in> set (timeouts s)"
      then show "fires e s \<noteq> Some k" using nt f by auto
    next
      show "step e s = snd (endLevel sc idx (s\<lparr>timeLeft := 0\<rparr>))"
        using True by (simp add: stp tick_eq[OF lv])
    qed
  next
    case False
    have st': "step e s = s\<lparr>timeLeft := ceilSec (durationMs lv - (now - st))\<rparr>"
      using False by (simp add: stp tick_eq[OF lv])
    have nn: "nextTimer (step e s) = nextTimer s" by (simp add: st')
    show ?thesis
    proof (rule dueInv_frame[OF di le])
      fix k assume "k \<in> set (timeouts (step e s))"
      then have k: "k \<in> set (timeouts s)" by (simp add: st')
      show "rearm D s t e k = D k"
        by (rule rearm_timeout[OF to k]) (simp add: ClockFire)
    next
      fix p assume p: "spawnTimer s = Some p"
      show "D p \<le> rearm D s t e p"
      proof (cases "p = h")
        case True
        then have "rearm D s t e p = t + delayOf (step e s) h" using f by (simp add: rearm_fired)
        moreover have "delayOf (step e s) h = 250"
          using iv levelsInv_tick[OF li iv] by (simp add: st' delayOf_def)
        moreover have "D h \<le> t" using dl f by (simp add: deliverable_def ClockFire)
        ultimately show ?thesis using True by simp
      next
        case False
        then have "rearm D s t e p = D p" using f nn by (simp add: rearm_other)
        then show ?thesis by simp
      qed
    qed (simp_all add: st')
  qed
next
  case (SpawnFire h u r1 r2)
  from dl obtain f: "fires e s = Some h" and due: "D h \<le> t"
    and ord: "\<forall>k < nextTimer s. pendingT s k \<longrightarrow> D h \<le> D k"
    by (auto simp: deliverable_def SpawnFire split: option.splits Callback.splits)
  then obtain d idx where iv: "intervals s h = Some (d, SpawnCb idx)"
    by (auto simp: SpawnFire split: option.splits Callback.splits)
  from levelsInv_spawn[OF li iv] have sp: "spawnTimer s = Some h" and ph: "phase s = Playing"
    by simp_all
  have no: "timeouts s = []"
  proof (rule ccontr)
    assume ne: "timeouts s \<noteq> []"
    with dueInv_B[OF di ph] obtain p where p: "spawnTimer s = Some p"
      "\<forall>k \<in> set (timeouts s). D k < D p" by blast
    from ne obtain k where k: "k \<in> set (timeouts s)" by (cases "timeouts s") auto
    have "k < nextTimer s" "pendingT s k"
      using toInv_mem[OF to k] k by (simp_all add: pendingT_def)
    then have "D h \<le> D k" using ord by blast
    moreover have "D k < D h" using p k sp by simp
    ultimately show False by simp
  qed
  have stp: "step e s = snd (spawnHeart idx u r1 r2 s)" using iv SpawnFire by simp
  have f2: "timeouts (step e s) = []" "phase (step e s) = Playing"
    unfolding stp using no ph by (simp_all add: spawnHeart_def Let_def split: option.splits)
  show ?thesis by (rule dueInvI) (simp_all add: f2)
next
  case (TimeoutFire h)
  from dl have hm: "h \<in> set (timeouts s)"
    by (auto simp: deliverable_def TimeoutFire split: if_splits)
  have st: "step e s = clearHearts (s\<lparr>timeouts := removeAll h (timeouts s)\<rparr>)"
    using hm TimeoutFire by simp
  have nn: "nextTimer (step e s) = nextTimer s" by (simp add: st clearHearts_eq)
  have f: "fires e s = Some h" using hm TimeoutFire by simp
  have hn: "intervals s h = None" using toInv_mem[OF to hm] by simp
  show ?thesis
  proof (rule dueInv_frame[OF di le])
    fix k assume "k \<in> set (timeouts (step e s))"
    then have k: "k \<in> set (timeouts s)" "k \<noteq> h" by (auto simp: st clearHearts_eq)
    show "rearm D s t e k = D k"
      by (rule rearm_timeout[OF to k(1)]) (use k(2) in \<open>simp add: TimeoutFire\<close>)
  next
    fix p assume p: "spawnTimer s = Some p"
    show "D p \<le> rearm D s t e p"
    proof (cases "p = h")
      case True
      have "D h \<le> t" using dl f by (simp add: deliverable_def TimeoutFire)
      moreover have "rearm D s t e h = t + delayOf (step e s) h" using f by (rule rearm_fired)
      moreover have "delayOf (step e s) h = 250"
        using hn by (simp add: st clearHearts_eq delayOf_def)
      ultimately show ?thesis using True by simp
    next
      case False
      then have "rearm D s t e p = D p" using f nn by (simp add: rearm_other)
      then show ?thesis by simp
    qed
  next
    show "length (timeouts (step e s)) \<le> length (timeouts s)"
      by (simp add: st clearHearts_eq removeAll_filter_not_eq)
  qed (auto simp: st clearHearts_eq)
qed

lemma feasible_inv:
  assumes "timersInv s" and "levelsInv s" and "toInv s" and "dueInv T D s"
    and "feasible T D s tevs"
  shows "\<exists>T' D'. dueInv T' D' (run s (map snd tevs))"
  using assms
proof (induction tevs arbitrary: s T D)
  case Nil
  then show ?case by (auto simp: run_def)
next
  case (Cons p tevs)
  obtain t e where p: "p = (t, e)" by (cases p)
  from Cons.prems(5) have le: "T \<le> t" and dl: "deliverable D s t e"
    and fe: "feasible t (rearm D s t e) (step e s) tevs"
    by (simp_all add: p)
  have "\<exists>T' D'. dueInv T' D' (run (step e s) (map snd tevs))"
    by (rule Cons.IH[OF timersInv_step[OF Cons.prems(1)] levelsInv_step[OF Cons.prems(2)]
          toInv_step[OF Cons.prems(3) Cons.prems(1)]
          dueInv_step[OF Cons.prems(1-4) le dl] fe])
  then show ?case by (simp add: p run_def)
qed

lemma dueInv_initial: "dueInv T D initial"
  by (simp add: dueInv_def initial_def)

lemma feasible_run:
  assumes "feasible T D initial tevs"
  shows "\<exists>T' D'. dueInv T' D' (run initial (map snd tevs))"
  by (rule feasible_inv[OF timersInv_initial _ toInv_initial dueInv_initial assms])
     (simp add: levelsInv_def initial_def)

lemma timeout_on_empty:
  assumes "hearts s = []" and "k \<in> set (timeouts s)"
  shows "step (TimeoutFire k) s = s\<lparr>timeouts := removeAll k (timeouts s), renders := renders s + 1\<rparr>"
proof -
  have "stopAll {} (anims s) = anims s" by (simp add: stopAll_def)
  then show ?thesis using assms by (simp add: clearHearts_eq)
qed

lemma dead_fire:
  assumes "intervals s h = None"
  shows "step (ClockFire h t) s = s" and "step (SpawnFire h u r1 r2) s = s"
  using assms by simp_all

lemma idle_end: "idle a s \<Longrightarrow> step (AnimEnd a) s = s"
  by (auto simp: idle_def animEnd_def split: option.splits)

lemma timeout_fire_eq:
  assumes "hearts s = []"
  shows "step (TimeoutFire k) s =
           s\<lparr>timeouts := removeAll k (timeouts s),
             renders := renders s + (if k \<in> set (timeouts s) then 1 else 0)\<rparr>"
proof (cases "k \<in> set (timeouts s)")
  case True
  then show ?thesis using timeout_on_empty[OF assms True] by simp
next
  case False
  then show ?thesis by simp
qed

section \<open>The claims\<close>

subsection \<open>C1: what decides the outcome of a level\<close>

text \<open>
  \<^verbatim>\<open>endLevel\<close> decides with the \<^verbatim>\<open>score\<close> it closes over. "Finish" calls the
  \<^verbatim>\<open>endLevel\<close> of the current render, so the current score decides. The countdown
  calls the \<^verbatim>\<open>endLevel\<close> of the render in which the level was started, so the score
  at the press that started the level decides, whatever was tapped since.
\<close>

lemma finish_outcome:
  assumes "level_at (levelIndex s) = Some lv"
  shows "successHaptics (snd (finish s)) =
           (if target lv \<le> score s then successHaptics s + 1 else successHaptics s) \<and>
         score (snd (finish s)) = score s"
  by (simp add: finish_def endLevel_eq[OF assms])

lemma start_captures_score:
  assumes "level_at idx = Some lv"
  shows "tickTimer (snd (startLevel idx now s)) = Some (nextTimer s) \<and>
         intervals (snd (startLevel idx now s)) (nextTimer s) =
           Some (250, TickCb idx now (score s))"
  by (simp add: startLevel_eq[OF assms])

lemma expiry_outcome:
  assumes "level_at idx = Some lv" and "durationMs lv \<le> now - st"
  shows "successHaptics (snd (tick idx st sc now s)) =
           (if target lv \<le> sc then successHaptics s + 1 else successHaptics s) \<and>
         score (snd (tick idx st sc now s)) = score s"
  using assms(2) by (simp add: tick_eq[OF assms(1)] endLevel_eq[OF assms(1)])

text \<open>
  Claim C1: at level resolution (countdown at zero or manual finish) the outcome is Passed
  if and only if the score of that attempt is at least the target; with fewer taps the
  outcome is Failed and the score stays.

  The countdown path does not do this. In \<open>stale_trace\<close> level 3 (target 26) is started
  from the reward screen of level 2, where the score is 26, and nothing is tapped: when
  the countdown runs out the score is 0, yet \<^verbatim>\<open>endLevel\<close> finds the level passed,
  gives the success haptic a third time and shows the proposal. In \<open>first_play_trace\<close>
  level 1 (target 18) is started with score 0 and 18 hearts are tapped: when the
  countdown runs out \<^verbatim>\<open>endLevel\<close> finds the level failed and gives no success
  haptic.
\<close>

theorem expiry_decides_with_stale_score:
  "phase (run initial (butlast stale_trace)) = Playing \<and>
   levelIndex (run initial stale_trace) = 2 \<and>
   score (run initial stale_trace) = 0 \<and>
   \<not> success (run initial stale_trace) \<and>
   successHaptics (run initial (butlast stale_trace)) = 2 \<and>
   successHaptics (run initial stale_trace) = 3 \<and>
   phase (run initial stale_trace) = Proposal \<and>
   score (run initial first_play_trace) = 18 \<and>
   success (run initial first_play_trace) \<and>
   successHaptics (run initial first_play_trace) = 0 \<and>
   phase (run initial first_play_trace) = Reward"
  by code_simp

subsection \<open>C2: a level index outside the catalog\<close>

text \<open>
  Claim C2, as amended: \<^verbatim>\<open>startLevel\<close> does not check its index. For an index
  outside \<open>0 \<le> idx < length LEVELS\<close> it fails with a \<^verbatim>\<open>TypeError\<close> when it reads
  the duration of the missing level, and starts nothing: phase and remaining time are as
  before and no timer is created. By then it has cleared both timers (the two refs are
  \<^verbatim>\<open>null\<close>, the intervals they referred to are gone from the runtime, and no interval
  has appeared), stopped the animation of every heart that was on the list, emptied the
  list, stored the index and set the score to 0.
\<close>

theorem startLevel_invalid:
  assumes "level_at idx = None"
  shows "fst (startLevel idx now s) = TypeError \<and>
         phase (snd (startLevel idx now s)) = phase s \<and>
         timeLeft (snd (startLevel idx now s)) = timeLeft s \<and>
         nextTimer (snd (startLevel idx now s)) = nextTimer s \<and>
         tickTimer (snd (startLevel idx now s)) = None \<and>
         spawnTimer (snd (startLevel idx now s)) = None \<and>
         (\<forall>h. tickTimer s = Some h \<or> spawnTimer s = Some h \<longrightarrow>
            intervals (snd (startLevel idx now s)) h = None) \<and>
         (\<forall>h. intervals s h = None \<longrightarrow> intervals (snd (startLevel idx now s)) h = None) \<and>
         hearts (snd (startLevel idx now s)) = [] \<and>
         (\<forall>x \<in> set (hearts s). \<forall>an. anims (snd (startLevel idx now s)) (hanim x) = Some an
            \<longrightarrow> a_status an \<noteq> Running) \<and>
         levelIndex (snd (startLevel idx now s)) = idx \<and>
         score (snd (startLevel idx now s)) = 0"
  using assms hearts_stopped[of "hearts s" "anims s"]
  by (simp add: startLevel_def clearHearts_eq clearTimers_eq dropTimers_def Let_def)

text \<open>In \<open>playing_trace\<close> the countdown 1 and the spawner 2 are alive; a start of
  the level 3, which does not exist, fails and leaves neither.\<close>

theorem startLevel_invalid_witness:
  "level_at 3 = None \<and>
   tickTimer (run initial playing_trace) = Some 1 \<and>
   spawnTimer (run initial playing_trace) = Some 2 \<and>
   intervals (run initial playing_trace) 1 \<noteq> None \<and>
   intervals (run initial playing_trace) 2 \<noteq> None \<and>
   fst (startLevel 3 700 (run initial playing_trace)) = TypeError \<and>
   phase (snd (startLevel 3 700 (run initial playing_trace))) = Playing \<and>
   timeLeft (snd (startLevel 3 700 (run initial playing_trace))) = 20 \<and>
   tickTimer (snd (startLevel 3 700 (run initial playing_trace))) = None \<and>
   intervals (snd (startLevel 3 700 (run initial playing_trace))) 1 = None \<and>
   intervals (snd (startLevel 3 700 (run initial playing_trace))) 2 = None \<and>
   levelIndex (snd (startLevel 3 700 (run initial playing_trace))) = 3 \<and>
   score (snd (startLevel 3 700 (run initial playing_trace))) = 0"
proof -
  have h: "level_at 3 = None" by code_simp
  have e: "phase (run initial playing_trace) = Playing"
          "timeLeft (run initial playing_trace) = 20"
          "tickTimer (run initial playing_trace) = Some 1"
          "spawnTimer (run initial playing_trace) = Some 2"
          "intervals (run initial playing_trace) 1 \<noteq> None"
          "intervals (run initial playing_trace) 2 \<noteq> None"
    by code_simp+
  from startLevel_invalid[OF h, of 700 "run initial playing_trace"] h e
  show ?thesis by simp
qed

text \<open>The claim as stated, state unchanged, fails: the level in play loses its timers, its
  heart, its score and its index.\<close>

theorem startLevel_invalid_counterexample:
  "level_at 3 = None \<and>
   fst (startLevel 3 700 (run initial playing_trace)) = TypeError \<and>
   score (run initial playing_trace) = 1 \<and>
   score (snd (startLevel 3 700 (run initial playing_trace))) = 0 \<and>
   map hid (hearts (run initial playing_trace)) = [''h2''] \<and>
   hearts (snd (startLevel 3 700 (run initial playing_trace))) = [] \<and>
   levelIndex (run initial playing_trace) = 0 \<and>
   levelIndex (snd (startLevel 3 700 (run initial playing_trace))) = 3 \<and>
   tickTimer (run initial playing_trace) = Some 1 \<and>
   tickTimer (snd (startLevel 3 700 (run initial playing_trace))) = None \<and>
   snd (startLevel 3 700 (run initial playing_trace)) \<noteq> run initial playing_trace"
proof -
  have a: "level_at 3 = None \<and>
   fst (startLevel 3 700 (run initial playing_trace)) = TypeError \<and>
   score (run initial playing_trace) = 1 \<and>
   score (snd (startLevel 3 700 (run initial playing_trace))) = 0 \<and>
   map hid (hearts (run initial playing_trace)) = [''h2''] \<and>
   hearts (snd (startLevel 3 700 (run initial playing_trace))) = [] \<and>
   levelIndex (run initial playing_trace) = 0 \<and>
   levelIndex (snd (startLevel 3 700 (run initial playing_trace))) = 3 \<and>
   tickTimer (run initial playing_trace) = Some 1 \<and>
   tickTimer (snd (startLevel 3 700 (run initial playing_trace))) = None"
    by code_simp
  then have "score (snd (startLevel 3 700 (run initial playing_trace))) \<noteq>
             score (run initial playing_trace)" by simp
  then have "snd (startLevel 3 700 (run initial playing_trace)) \<noteq> run initial playing_trace"
    by metis
  with a show ?thesis by blast
qed

subsection \<open>C3: what a start leaves of the level before\<close>

text \<open>
  Claim C3: in every state the session can reach (\<open>run initial evs\<close>, the events in any
  order), \<^verbatim>\<open>startLevel\<close> clears the countdown and the spawner and stops the animation
  of every heart on the list before it creates the timers of the new level. An interval
  that was alive before the start is not alive after it or after any events that follow
  (\<open>evs'\<close>), and its firing changes nothing; the only intervals alive after the start are
  the two it has just created; a heart that was on the list has no running animation
  after the start or later, and the end of its animation changes nothing; and the list
  is empty. \<^verbatim>\<open>endLevel\<close> and "Quit" leave no interval alive at all.

  The time-out of 250 ms that \<^verbatim>\<open>endLevel\<close> sets is cleared by nothing, and can still
  be pending when the next level is played. In every timed run that the runtime can
  deliver (\<open>feasible\<close>: the timers in due order), while a level is played a pending
  time-out finds the list empty, because the spawner of that level, with a delay of
  520 ms at least, is due after it. So the firing of a time-out in a level leaves the
  session as it is: it is taken off the pending ones and a render is counted. And
  whenever a heart is on the list, at most one time-out is pending, and none while a
  level is played.
\<close>

theorem start_stops_previous_level:
  assumes "level_at idx = Some lv" and "feasible T D initial tevs"
  shows "(\<forall>h. intervals (run initial evs) h \<noteq> None \<longrightarrow>
            intervals (run (snd (startLevel idx now (run initial evs))) evs') h = None \<and>
            (\<forall>t. step (ClockFire h t) (run (snd (startLevel idx now (run initial evs))) evs') =
                  run (snd (startLevel idx now (run initial evs))) evs') \<and>
            (\<forall>u r1 r2.
               step (SpawnFire h u r1 r2) (run (snd (startLevel idx now (run initial evs))) evs') =
               run (snd (startLevel idx now (run initial evs))) evs')) \<and>
         (\<forall>h. intervals (snd (startLevel idx now (run initial evs))) h \<noteq> None \<longrightarrow>
            (tickTimer (snd (startLevel idx now (run initial evs))) = Some h \<or>
             spawnTimer (snd (startLevel idx now (run initial evs))) = Some h) \<and>
            nextTimer (run initial evs) \<le> h) \<and>
         (\<forall>x \<in> set (hearts (run initial evs)).
            (\<forall>an. anims (run (snd (startLevel idx now (run initial evs))) evs') (hanim x) = Some an
               \<longrightarrow> a_status an \<noteq> Running) \<and>
            step (AnimEnd (hanim x)) (run (snd (startLevel idx now (run initial evs))) evs') =
              run (snd (startLevel idx now (run initial evs))) evs') \<and>
         hearts (snd (startLevel idx now (run initial evs))) = [] \<and>
         (\<forall>h. intervals (snd (endLevel sc idx (run initial evs))) h = None) \<and>
         (\<forall>h. intervals (quit (run initial evs)) h = None) \<and>
         (phase (run initial (map snd tevs)) = Playing \<longrightarrow>
            (timeouts (run initial (map snd tevs)) \<noteq> [] \<longrightarrow>
               hearts (run initial (map snd tevs)) = []) \<and>
            (\<forall>k. step (TimeoutFire k) (run initial (map snd tevs)) =
               (run initial (map snd tevs))
                 \<lparr>timeouts := removeAll k (timeouts (run initial (map snd tevs))),
                  renders := renders (run initial (map snd tevs)) +
                    (if k \<in> set (timeouts (run initial (map snd tevs))) then 1 else 0)\<rparr>)) \<and>
         (hearts (run initial (map snd tevs)) \<noteq> [] \<longrightarrow>
            length (timeouts (run initial (map snd tevs))) \<le> 1)"
proof -
  define s where "s = run initial evs"
  define s' where "s' = snd (startLevel idx now s)"
  define r where "r = run initial (map snd tevs)"
  have i: "timersInv s" by (simp add: s_def timersInv_run)
  have hi: "heartsInv s" by (simp add: s_def heartsInv_run)
  have d: "\<And>h. dropTimers s h = None" by (rule dropTimers_inv[OF i])
  have lt: "\<And>h. nextTimer s \<le> h \<Longrightarrow> intervals s h = None"
    using i by (simp add: timersInv_def)
  have 1: "\<forall>h. intervals s h \<noteq> None \<longrightarrow> intervals (run s' evs') h = None \<and>
             (\<forall>t. step (ClockFire h t) (run s' evs') = run s' evs') \<and>
             (\<forall>u r1 r2. step (SpawnFire h u r1 r2) (run s' evs') = run s' evs')"
  proof (intro allI impI)
    fix h assume "intervals s h \<noteq> None"
    then have "h < nextTimer s" using lt[of h] by (cases "nextTimer s \<le> h") auto
    then have "intervals s' h = None" "h < nextTimer s'"
      by (simp_all add: s'_def startLevel_eq[OF assms(1)] d)
    from dead_interval_run[OF this] have n: "intervals (run s' evs') h = None" by simp
    show "intervals (run s' evs') h = None \<and>
             (\<forall>t. step (ClockFire h t) (run s' evs') = run s' evs') \<and>
             (\<forall>u r1 r2. step (SpawnFire h u r1 r2) (run s' evs') = run s' evs')"
      using n dead_fire[OF n] by blast
  qed
  have 2: "\<forall>h. intervals s' h \<noteq> None \<longrightarrow>
            (tickTimer s' = Some h \<or> spawnTimer s' = Some h) \<and> nextTimer s \<le> h"
    by (simp add: s'_def startLevel_eq[OF assms(1)] d)
  have 3: "\<forall>x \<in> set (hearts s).
            (\<forall>an. anims (run s' evs') (hanim x) = Some an \<longrightarrow> a_status an \<noteq> Running) \<and>
            step (AnimEnd (hanim x)) (run s' evs') = run s' evs'"
  proof
    fix x assume x: "x \<in> set (hearts s)"
    have a: "\<forall>an. anims s' (hanim x) = Some an \<longrightarrow> a_status an \<noteq> Running"
      using hearts_stopped[of "hearts s" "anims s"] x
      by (simp add: s'_def startLevel_eq[OF assms(1)])
    have b: "hanim x < nextAnim s'"
      using hi x by (simp add: s'_def startLevel_eq[OF assms(1)] heartsInv_def)
    have "idle (hanim x) s'" using a b by (simp add: idle_def)
    then have id: "idle (hanim x) (run s' evs')" by (rule idle_run)
    then have "\<forall>an. anims (run s' evs') (hanim x) = Some an \<longrightarrow> a_status an \<noteq> Running"
      by (simp add: idle_def)
    then show "(\<forall>an. anims (run s' evs') (hanim x) = Some an \<longrightarrow> a_status an \<noteq> Running) \<and>
            step (AnimEnd (hanim x)) (run s' evs') = run s' evs'"
      using idle_end[OF id] by blast
  qed
  have 4: "hearts s' = []"
    by (simp add: s'_def startLevel_eq[OF assms(1)])
  have 5: "\<forall>h. intervals (snd (endLevel sc idx s)) h = None"
    by (simp add: endLevel_eq[OF assms(1)] d)
  have 6: "\<forall>h. intervals (quit s) h = None"
    by (simp add: quit_def clearHearts_eq clearTimers_eq d)
  from feasible_run[OF assms(2)] obtain T' D' where di: "dueInv T' D' r"
    unfolding r_def by blast
  have 8: "hearts r \<noteq> [] \<longrightarrow> length (timeouts r) \<le> 1"
  proof
    assume ne: "hearts r \<noteq> []"
    show "length (timeouts r) \<le> 1"
    proof (cases "phase r = Playing")
      case True
      then have "timeouts r = []" using dueInv_B[OF di True] ne by blast
      then show ?thesis by simp
    next
      case False
      then show ?thesis using dueInv_G[OF di False] ne by blast
    qed
  qed
  have 7: "phase r = Playing \<longrightarrow>
            (timeouts r \<noteq> [] \<longrightarrow> hearts r = []) \<and>
            (\<forall>k. step (TimeoutFire k) r =
               r\<lparr>timeouts := removeAll k (timeouts r),
                 renders := renders r + (if k \<in> set (timeouts r) then 1 else 0)\<rparr>)"
  proof
    assume ph: "phase r = Playing"
    have e: "timeouts r \<noteq> [] \<longrightarrow> hearts r = []" using dueInv_B[OF di ph] by blast
    have "step (TimeoutFire k) r =
               r\<lparr>timeouts := removeAll k (timeouts r),
                 renders := renders r + (if k \<in> set (timeouts r) then 1 else 0)\<rparr>" for k
    proof (cases "k \<in> set (timeouts r)")
      case True
      then have "hearts r = []" using e by auto
      then show ?thesis by (rule timeout_fire_eq)
    next
      case False
      then show ?thesis by simp
    qed
    with e show "(timeouts r \<noteq> [] \<longrightarrow> hearts r = []) \<and>
            (\<forall>k. step (TimeoutFire k) r =
               r\<lparr>timeouts := removeAll k (timeouts r),
                 renders := renders r + (if k \<in> set (timeouts r) then 1 else 0)\<rparr>)"
      by blast
  qed
  show ?thesis
    using 1 2 3 4 5 6 7 8 unfolding s_def s'_def r_def by blast
qed

text \<open>In \<open>playing_trace\<close> the intervals 1 and 2 are alive and the heart \<open>h2\<close> falls
  (animation 1). A start of level 2 at 700 ms clears both and stops the animation; the
  intervals alive are then 3 and 4; and after \<open>restarted_trace\<close> the old ones are
  still dead and have changed nothing. In \<open>due_trace\<close>, after "Retry" the time-out 3
  of the attempt before is pending and the list is empty; it fires before the first heart
  of the new attempt is spawned.\<close>

theorem start_stops_previous_level_witness:
  "level_at 1 = Some (LEVELS ! 1) \<and>
   feasible 0 (\<lambda>k. 0) initial (take 3 due_trace) \<and>
   feasible 0 (\<lambda>k. 0) initial due_trace \<and>
   intervals (run initial playing_trace) 1 \<noteq> None \<and>
   intervals (run initial playing_trace) 2 \<noteq> None \<and>
   map hanim (hearts (run initial playing_trace)) = [1] \<and>
   map_option a_status (anims (run initial playing_trace) 1) = Some Running \<and>
   tickTimer (snd (startLevel 1 700 (run initial playing_trace))) = Some 3 \<and>
   spawnTimer (snd (startLevel 1 700 (run initial playing_trace))) = Some 4 \<and>
   hearts (snd (startLevel 1 700 (run initial playing_trace))) = [] \<and>
   intervals (run (snd (startLevel 1 700 (run initial playing_trace))) restarted_trace) 1
     = None \<and>
   intervals (run (snd (startLevel 1 700 (run initial playing_trace))) restarted_trace) 2
     = None \<and>
   step (ClockFire 1 1300) (run (snd (startLevel 1 700 (run initial playing_trace))) restarted_trace)
     = run (snd (startLevel 1 700 (run initial playing_trace))) restarted_trace \<and>
   map_option a_status
     (anims (run (snd (startLevel 1 700 (run initial playing_trace))) restarted_trace) 1)
     = Some Stopped \<and>
   map hid (hearts (run (snd (startLevel 1 700 (run initial playing_trace))) restarted_trace))
     = [''h3''] \<and>
   timeLeft (run (snd (startLevel 1 700 (run initial playing_trace))) restarted_trace) = 20 \<and>
   phase (run initial (map snd (take 3 due_trace))) = Playing \<and>
   timeouts (run initial (map snd (take 3 due_trace))) = [3] \<and>
   hearts (run initial (map snd (take 3 due_trace))) = [] \<and>
   step (TimeoutFire 3) (run initial (map snd (take 3 due_trace))) =
     (run initial (map snd (take 3 due_trace)))
       \<lparr>timeouts := [], renders := renders (run initial (map snd (take 3 due_trace))) + 1\<rparr> \<and>
   phase (run initial (map snd due_trace)) = Playing \<and>
   map hid (hearts (run initial (map snd due_trace))) = [''h1''] \<and>
   timeouts (run initial (map snd due_trace)) = []"
proof -
  have h: "level_at 1 = Some (LEVELS ! 1)" by code_simp
  have f3: "feasible 0 (\<lambda>k. 0) initial (take 3 due_trace)" by code_simp
  have f: "feasible 0 (\<lambda>k. 0) initial due_trace" by code_simp
  have e: "intervals (run initial playing_trace) 1 \<noteq> None \<and>
     intervals (run initial playing_trace) 2 \<noteq> None \<and>
     map hanim (hearts (run initial playing_trace)) = [1] \<and>
     map_option a_status (anims (run initial playing_trace) 1) = Some Running \<and>
     tickTimer (snd (startLevel 1 700 (run initial playing_trace))) = Some 3 \<and>
     spawnTimer (snd (startLevel 1 700 (run initial playing_trace))) = Some 4 \<and>
     map_option a_status
       (anims (run (snd (startLevel 1 700 (run initial playing_trace))) restarted_trace) 1)
       = Some Stopped \<and>
     map hid (hearts (run (snd (startLevel 1 700 (run initial playing_trace))) restarted_trace))
       = [''h3''] \<and>
     timeLeft (run (snd (startLevel 1 700 (run initial playing_trace))) restarted_trace) = 20"
    by code_simp
  have g: "phase (run initial (map snd (take 3 due_trace))) = Playing \<and>
     timeouts (run initial (map snd (take 3 due_trace))) = [3] \<and>
     phase (run initial (map snd due_trace)) = Playing \<and>
     map hid (hearts (run initial (map snd due_trace))) = [''h1''] \<and>
     timeouts (run initial (map snd due_trace)) = []"
    by code_simp
  note t = start_stops_previous_level[OF h f3, where evs = playing_trace and now = 700
         and evs' = restarted_trace]
  have a: "intervals (run (snd (startLevel 1 700 (run initial playing_trace))) restarted_trace) 1
     = None \<and>
     step (ClockFire 1 1300) (run (snd (startLevel 1 700 (run initial playing_trace))) restarted_trace)
     = run (snd (startLevel 1 700 (run initial playing_trace))) restarted_trace"
    using t e by blast
  have b: "intervals (run (snd (startLevel 1 700 (run initial playing_trace))) restarted_trace) 2
     = None"
    using t e by blast
  have c: "hearts (snd (startLevel 1 700 (run initial playing_trace))) = []"
    using t by blast
  have k: "hearts (run initial (map snd (take 3 due_trace))) = [] \<and>
     step (TimeoutFire 3) (run initial (map snd (take 3 due_trace))) =
     (run initial (map snd (take 3 due_trace)))
       \<lparr>timeouts := removeAll 3 (timeouts (run initial (map snd (take 3 due_trace)))),
        renders := renders (run initial (map snd (take 3 due_trace))) +
           (if 3 \<in> set (timeouts (run initial (map snd (take 3 due_trace)))) then 1 else 0)\<rparr>"
  proof -
    have p: "phase (run initial (map snd (take 3 due_trace))) = Playing \<longrightarrow>
      (timeouts (run initial (map snd (take 3 due_trace))) \<noteq> [] \<longrightarrow>
       hearts (run initial (map snd (take 3 due_trace))) = []) \<and>
      (\<forall>k. step (TimeoutFire k) (run initial (map snd (take 3 due_trace))) =
           (run initial (map snd (take 3 due_trace)))
           \<lparr>timeouts := removeAll k (timeouts (run initial (map snd (take 3 due_trace)))),
            renders := renders (run initial (map snd (take 3 due_trace))) +
              (if k \<in> set (timeouts (run initial (map snd (take 3 due_trace))))
               then 1 else 0)\<rparr>)"
      using t by blast
    have ph: "phase (run initial (map snd (take 3 due_trace))) = Playing" using g by blast
    have ne: "timeouts (run initial (map snd (take 3 due_trace))) \<noteq> []" using g by simp
    from p ph ne have k1: "hearts (run initial (map snd (take 3 due_trace))) = []" by blast
    from p ph have k2: "step (TimeoutFire 3) (run initial (map snd (take 3 due_trace))) =
     (run initial (map snd (take 3 due_trace)))
       \<lparr>timeouts := removeAll 3 (timeouts (run initial (map snd (take 3 due_trace)))),
        renders := renders (run initial (map snd (take 3 due_trace))) +
           (if 3 \<in> set (timeouts (run initial (map snd (take 3 due_trace)))) then 1 else 0)\<rparr>"
      by blast
    from k1 k2 show ?thesis by blast
  qed
  have k': "hearts (run initial (map snd (take 3 due_trace))) = [] \<and>
     step (TimeoutFire 3) (run initial (map snd (take 3 due_trace))) =
     (run initial (map snd (take 3 due_trace)))
       \<lparr>timeouts := [], renders := renders (run initial (map snd (take 3 due_trace))) + 1\<rparr>"
    using k g by (simp del: step.simps)
  show ?thesis using h f3 f e g a b c k' by blast
qed

subsection \<open>C4: a tap and the end of the fall\<close>

text \<open>
  Claim C4, as amended: a spawned object leaves the list at most once, and it has left
  exactly once as soon as it is no longer on the list. It leaves in exactly one of three
  ways: by a tap, which adds 1 to the score; by the end of its fall, which removes it
  silently (the score is as before); or with the whole list, when \<^verbatim>\<open>clearHearts\<close>
  empties it (the time-out after the end of a level, "Quit", "Back to Start", a start),
  with neither a tap nor a miss. For every heart on the list of a state the session can
  reach, the end of its fall does remove it as a miss, and while the level is played a
  tap on it does remove it and score. After a tap that found the heart, the end of its
  animation changes nothing (\<^verbatim>\<open>stop()\<close> has suppressed the callback), and the end of
  an animation acts once.
\<close>

theorem tap_miss_exclusive:
  "length (ways a initial evs) \<le> 1 \<and>
   (length (ways a initial evs) = 1 \<longleftrightarrow>
      a < nextAnim (run initial evs) \<and> \<not> onList a (run initial evs)) \<and>
   (\<forall>i. leaves a (Tap i) s = Some w \<longrightarrow>
      w = ByTap \<and> score (step (Tap i) s) = score s + 1) \<and>
   (\<forall>b. leaves a (AnimEnd b) s = Some w \<longrightarrow>
      w = ByMiss \<and> score (step (AnimEnd b) s) = score s) \<and>
   ((\<forall>i. e \<noteq> Tap i) \<and> (\<forall>b. e \<noteq> AnimEnd b) \<and> leaves a e s = Some w \<longrightarrow>
      w = ByClear \<and> hearts (step e s) = [] \<and>
      (score (step e s) = score s \<or> score (step e s) = 0)) \<and>
   (\<forall>x \<in> set (hearts (run initial evs)).
      leaves (hanim x) (AnimEnd (hanim x)) (run initial evs) = Some ByMiss \<and>
      x \<notin> set (hearts (step (AnimEnd (hanim x)) (run initial evs))) \<and>
      score (step (AnimEnd (hanim x)) (run initial evs)) = score (run initial evs) \<and>
      (phase (run initial evs) = Playing \<longrightarrow>
         leaves (hanim x) (Tap (hid x)) (run initial evs) = Some ByTap \<and>
         x \<notin> set (hearts (step (Tap (hid x)) (run initial evs))) \<and>
         score (step (Tap (hid x)) (run initial evs)) = score (run initial evs) + 1)) \<and>
   (\<forall>h i. find (\<lambda>x. hid x = i) (hearts s) = Some h \<longrightarrow>
      animEnd (hanim h) (onTapHeart i s) = onTapHeart i s) \<and>
   (\<forall>b. animEnd b (animEnd b s) = animEnd b s)"
proof -
  note o = ways_exactly_once[of a evs]
  have 3: "\<forall>i. leaves a (Tap i) s = Some w \<longrightarrow>
      w = ByTap \<and> score (step (Tap i) s) = score s + 1"
    using leaves_tap by blast
  have 4: "\<forall>b. leaves a (AnimEnd b) s = Some w \<longrightarrow>
      w = ByMiss \<and> score (step (AnimEnd b) s) = score s"
    using leaves_miss by blast
  have 5: "(\<forall>i. e \<noteq> Tap i) \<and> (\<forall>b. e \<noteq> AnimEnd b) \<and> leaves a e s = Some w \<longrightarrow>
      w = ByClear \<and> hearts (step e s) = [] \<and>
      (score (step e s) = score s \<or> score (step e s) = 0)"
    using leaves_clear[of a e s w] by blast
  have 6: "\<forall>x \<in> set (hearts (run initial evs)).
      leaves (hanim x) (AnimEnd (hanim x)) (run initial evs) = Some ByMiss \<and>
      x \<notin> set (hearts (step (AnimEnd (hanim x)) (run initial evs))) \<and>
      score (step (AnimEnd (hanim x)) (run initial evs)) = score (run initial evs) \<and>
      (phase (run initial evs) = Playing \<longrightarrow>
         leaves (hanim x) (Tap (hid x)) (run initial evs) = Some ByTap \<and>
         x \<notin> set (hearts (step (Tap (hid x)) (run initial evs))) \<and>
         score (step (Tap (hid x)) (run initial evs)) = score (run initial evs) + 1)"
    using fall_end_removes[OF liveInv_run] tap_removes[OF liveInv_run] by blast
  have 7: "\<forall>h i. find (\<lambda>x. hid x = i) (hearts s) = Some h \<longrightarrow>
      animEnd (hanim h) (onTapHeart i s) = onTapHeart i s"
    using animEnd_after_tap by blast
  have 8: "\<forall>b. animEnd b (animEnd b s) = animEnd b s"
    using animEnd_idem by blast
  show ?thesis using o 3 4 5 6 7 8 by blast
qed

text \<open>In \<open>removed_trace\<close> the heart with animation 0 leaves by its tap, the heart 1
  by the end of its fall, the heart 2 by "Quit"; no heart with animation 3 was spawned.
  After the three spawns (\<open>take 4\<close>) the heart 2 is on the list: there the end of its
  fall would remove it as a miss, and a tap would remove it and score.\<close>

theorem tap_miss_exclusive_witness:
  "ways 0 initial removed_trace = [ByTap] \<and>
   ways 1 initial removed_trace = [ByMiss] \<and>
   ways 2 initial removed_trace = [ByClear] \<and>
   ways 3 initial removed_trace = [] \<and>
   length (ways 0 initial removed_trace) \<le> 1 \<and>
   2 < nextAnim (run initial removed_trace) \<and>
   \<not> onList 2 (run initial removed_trace) \<and>
   length (ways 2 initial removed_trace) = 1 \<and>
   phase (run initial (take 4 removed_trace)) = Playing \<and>
   hearts (run initial (take 4 removed_trace)) =
     [\<lparr>hid = ''h1'', hsize = 28, hanim = 0\<rparr>, \<lparr>hid = ''h2'', hsize = 28, hanim = 1\<rparr>,
      \<lparr>hid = ''h3'', hsize = 28, hanim = 2\<rparr>] \<and>
   leaves 0 (Tap ''h1'') (run initial (take 4 removed_trace)) = Some ByTap \<and>
   score (step (Tap ''h1'') (run initial (take 4 removed_trace))) =
     score (run initial (take 4 removed_trace)) + 1 \<and>
   leaves 1 (AnimEnd 1) (run initial (take 5 removed_trace)) = Some ByMiss \<and>
   score (step (AnimEnd 1) (run initial (take 5 removed_trace))) =
     score (run initial (take 5 removed_trace)) \<and>
   leaves 0 (AnimEnd 0) (run initial (take 6 removed_trace)) = None \<and>
   leaves 2 PressQuit (run initial (take 8 removed_trace)) = Some ByClear \<and>
   hearts (step PressQuit (run initial (take 8 removed_trace))) = [] \<and>
   leaves 2 (AnimEnd 2) (run initial (take 4 removed_trace)) = Some ByMiss \<and>
   leaves 2 (Tap ''h3'') (run initial (take 4 removed_trace)) = Some ByTap \<and>
   score (run initial removed_trace) = 1"
proof -
  have e: "ways 0 initial removed_trace = [ByTap] \<and>
     ways 1 initial removed_trace = [ByMiss] \<and>
     ways 2 initial removed_trace = [ByClear] \<and>
     ways 3 initial removed_trace = [] \<and>
     2 < nextAnim (run initial removed_trace) \<and>
     \<not> onList 2 (run initial removed_trace) \<and>
     phase (run initial (take 4 removed_trace)) = Playing \<and>
     leaves 0 (Tap ''h1'') (run initial (take 4 removed_trace)) = Some ByTap \<and>
     leaves 1 (AnimEnd 1) (run initial (take 5 removed_trace)) = Some ByMiss \<and>
     leaves 0 (AnimEnd 0) (run initial (take 6 removed_trace)) = None \<and>
     leaves 2 PressQuit (run initial (take 8 removed_trace)) = Some ByClear \<and>
     score (run initial removed_trace) = 1"
    by code_simp
  have hs: "hearts (run initial (take 4 removed_trace)) =
     [\<lparr>hid = ''h1'', hsize = 28, hanim = 0\<rparr>, \<lparr>hid = ''h2'', hsize = 28, hanim = 1\<rparr>,
      \<lparr>hid = ''h3'', hsize = 28, hanim = 2\<rparr>]"
    by code_simp
  have q: "(\<forall>i. PressQuit \<noteq> Tap i) \<and> (\<forall>b. PressQuit \<noteq> AnimEnd b)" by simp
  note t0 = tap_miss_exclusive[of 0 removed_trace "run initial (take 4 removed_trace)" ByTap
              PressQuit]
  note t1 = tap_miss_exclusive[of 1 removed_trace "run initial (take 5 removed_trace)" ByMiss
              PressQuit]
  note t2 = tap_miss_exclusive[of 2 removed_trace "run initial (take 8 removed_trace)" ByClear
              PressQuit]
  note t4 = tap_miss_exclusive[of 2 "take 4 removed_trace" "run initial (take 4 removed_trace)"
              ByTap PressQuit]
  have a: "length (ways 0 initial removed_trace) \<le> 1" using t0 by blast
  have b: "length (ways 2 initial removed_trace) = 1" using t2 e by blast
  have c: "score (step (Tap ''h1'') (run initial (take 4 removed_trace))) =
     score (run initial (take 4 removed_trace)) + 1" using t0 e by blast
  have d: "score (step (AnimEnd 1) (run initial (take 5 removed_trace))) =
     score (run initial (take 5 removed_trace))" using t1 e by blast
  have f: "hearts (step PressQuit (run initial (take 8 removed_trace))) = []"
    using t2 e q by blast
  have m: "\<lparr>hid = ''h3'', hsize = 28, hanim = 2\<rparr> \<in> set (hearts (run initial (take 4 removed_trace)))"
    by (simp add: hs)
  have g: "leaves (hanim \<lparr>hid = ''h3'', hsize = 28, hanim = 2\<rparr>)
             (AnimEnd (hanim \<lparr>hid = ''h3'', hsize = 28, hanim = 2\<rparr>))
             (run initial (take 4 removed_trace)) = Some ByMiss \<and>
           leaves (hanim \<lparr>hid = ''h3'', hsize = 28, hanim = 2\<rparr>)
             (Tap (hid \<lparr>hid = ''h3'', hsize = 28, hanim = 2\<rparr>))
             (run initial (take 4 removed_trace)) = Some ByTap"
    using t4 m e by blast
  then have g': "leaves 2 (AnimEnd 2) (run initial (take 4 removed_trace)) = Some ByMiss \<and>
           leaves 2 (Tap ''h3'') (run initial (take 4 removed_trace)) = Some ByTap"
    by simp
  show ?thesis using e hs a b c d f g' by blast
qed

text \<open>The claim as stated, never neither, fails: in \<open>cleared_trace\<close> the heart \<open>h1\<close>
  (animation 0) is on the list when the countdown runs out and is cleared 250 ms later,
  untapped and before the end of its fall.\<close>

theorem neither_tap_nor_miss_counterexample:
  "map hanim (hearts (run initial (take 2 cleared_trace))) = [0] \<and>
   live ''h1'' (run initial (take 2 cleared_trace)) \<and>
   \<not> live ''h1'' (run initial cleared_trace) \<and>
   ways 0 initial cleared_trace = [ByClear] \<and>
   tapScores ''h1'' initial cleared_trace = 0 \<and>
   misses ''h1'' initial cleared_trace = 0 \<and>
   score (run initial cleared_trace) = 0"
  by code_simp

subsection \<open>C5: a start resets the session\<close>

text \<open>
  Claim C5: for every level of the catalog and every state before, \<^verbatim>\<open>startLevel\<close>
  returns normally with the score 0, the remaining time the full duration of the level
  (kept in seconds), no heart on the list, every animation of a heart that was on the
  list stopped, and the phase \<^verbatim>\<open>playing\<close>.
\<close>

theorem startLevel_resets:
  assumes "level_at idx = Some lv"
  shows "fst (startLevel idx now s) = Completed \<and>
         phase (snd (startLevel idx now s)) = Playing \<and>
         levelIndex (snd (startLevel idx now s)) = idx \<and>
         score (snd (startLevel idx now s)) = 0 \<and>
         timeLeft (snd (startLevel idx now s)) * 1000 = durationMs lv \<and>
         hearts (snd (startLevel idx now s)) = [] \<and>
         (\<forall>h \<in> set (hearts s). \<forall>an. anims (snd (startLevel idx now s)) (hanim h) = Some an
            \<longrightarrow> a_status an \<noteq> Running)"
  using assms hearts_stopped[of "hearts s" "anims s"]
  by (simp add: startLevel_eq level_duration)

theorem startLevel_resets_witness:
  "level_at 2 = Some (LEVELS ! 2) \<and>
   score (run initial playing_trace) = 1 \<and>
   timeLeft (run initial playing_trace) = 20 \<and>
   fst (startLevel 2 700 (run initial playing_trace)) = Completed \<and>
   phase (snd (startLevel 2 700 (run initial playing_trace))) = Playing \<and>
   levelIndex (snd (startLevel 2 700 (run initial playing_trace))) = 2 \<and>
   score (snd (startLevel 2 700 (run initial playing_trace))) = 0 \<and>
   timeLeft (snd (startLevel 2 700 (run initial playing_trace))) * 1000 = 22000 \<and>
   hearts (snd (startLevel 2 700 (run initial playing_trace))) = []"
proof -
  have h: "level_at 2 = Some (LEVELS ! 2)" by code_simp
  have d: "durationMs (LEVELS ! 2) = 22000" by code_simp
  have e: "score (run initial playing_trace) = 1 \<and>
           timeLeft (run initial playing_trace) = 20" by code_simp
  from startLevel_resets[OF h, of 700 "run initial playing_trace"] h e
  show ?thesis unfolding d by blast
qed

subsection \<open>C6: the countdown tick\<close>

text \<open>
  Claim C6, as amended: a firing of the countdown sets the remaining time, which is kept
  in whole seconds, to \<open>max 0 \<lceil>(durationMs - elapsed) / 1000\<rceil>\<close>, the milliseconds
  left rounded up to seconds. It is 0 exactly when the elapsed time has reached the
  duration; then both timers are cleared and the phase is \<^verbatim>\<open>reward\<close> or
  \<^verbatim>\<open>proposal\<close>. Before that the phase and the timers stay as they are.
\<close>

theorem clock_tick:
  assumes "intervals s h = Some (d, TickCb idx startAt sc)" and "level_at idx = Some lv"
  shows "timeLeft (step (ClockFire h now) s) = max 0 (ceilSec (durationMs lv - (now - startAt))) \<and>
         timeLeft (step (ClockFire h now) s) =
           \<lceil>real_of_int (max 0 (durationMs lv - (now - startAt))) / 1000\<rceil> \<and>
         (timeLeft (step (ClockFire h now) s) = 0 \<longleftrightarrow> durationMs lv \<le> now - startAt) \<and>
         (durationMs lv \<le> now - startAt \<longrightarrow>
            tickTimer (step (ClockFire h now) s) = None \<and>
            spawnTimer (step (ClockFire h now) s) = None \<and>
            (\<forall>k. tickTimer s = Some k \<or> spawnTimer s = Some k \<longrightarrow>
                 intervals (step (ClockFire h now) s) k = None) \<and>
            (phase (step (ClockFire h now) s) = Reward \<or>
             phase (step (ClockFire h now) s) = Proposal)) \<and>
         (now - startAt < durationMs lv \<longrightarrow>
            phase (step (ClockFire h now) s) = phase s \<and>
            tickTimer (step (ClockFire h now) s) = tickTimer s \<and>
            spawnTimer (step (ClockFire h now) s) = spawnTimer s \<and>
            intervals (step (ClockFire h now) s) = intervals s)"
proof -
  have st: "step (ClockFire h now) s = snd (tick idx startAt sc now s)"
    using assms(1) by simp
  have 1: "timeLeft (snd (tick idx startAt sc now s)) =
           max 0 (ceilSec (durationMs lv - (now - startAt)))"
    by (rule tick_timeLeft[OF assms(2)])
  have cl: "max 0 (ceilSec (durationMs lv - (now - startAt))) =
           \<lceil>real_of_int (max 0 (durationMs lv - (now - startAt))) / 1000\<rceil>"
    by (simp only: ceilSec_max, simp only: ceilSec_ceiling)
  have 2: "max 0 (ceilSec (durationMs lv - (now - startAt))) = 0 \<longleftrightarrow>
           durationMs lv \<le> now - startAt"
    using ceilSec_pos_iff[of "durationMs lv - (now - startAt)"] by (auto simp: max_def)
  have 3: "durationMs lv \<le> now - startAt \<longrightarrow>
            tickTimer (snd (tick idx startAt sc now s)) = None \<and>
            spawnTimer (snd (tick idx startAt sc now s)) = None \<and>
            (\<forall>k. tickTimer s = Some k \<or> spawnTimer s = Some k \<longrightarrow>
                 intervals (snd (tick idx startAt sc now s)) k = None) \<and>
            (phase (snd (tick idx startAt sc now s)) = Reward \<or>
             phase (snd (tick idx startAt sc now s)) = Proposal)"
    by (simp add: tick_eq[OF assms(2)] endLevel_eq[OF assms(2)] dropTimers_def)
  have 4: "now - startAt < durationMs lv \<longrightarrow>
            phase (snd (tick idx startAt sc now s)) = phase s \<and>
            tickTimer (snd (tick idx startAt sc now s)) = tickTimer s \<and>
            spawnTimer (snd (tick idx startAt sc now s)) = spawnTimer s \<and>
            intervals (snd (tick idx startAt sc now s)) = intervals s"
    by (simp add: tick_eq[OF assms(2)])
  show ?thesis
    unfolding st using 1 cl 2 3 4 by simp
qed

text \<open>In \<open>playing_trace\<close> level 1 was started at time 0; the countdown fires at time
  20000.\<close>

theorem clock_tick_witness:
  "intervals (run initial playing_trace) 1 = Some (250, TickCb 0 0 0) \<and>
   level_at 0 = Some (LEVELS ! 0) \<and>
   durationMs (LEVELS ! 0) \<le> 20000 - 0 \<and>
   timeLeft (step (ClockFire 1 20000) (run initial playing_trace)) = 0 \<and>
   tickTimer (step (ClockFire 1 20000) (run initial playing_trace)) = None \<and>
   spawnTimer (step (ClockFire 1 20000) (run initial playing_trace)) = None \<and>
   phase (step (ClockFire 1 20000) (run initial playing_trace)) = Reward"
proof -
  have h1: "intervals (run initial playing_trace) 1 = Some (250, TickCb 0 0 0)" by code_simp
  have h2: "level_at 0 = Some (LEVELS ! 0)" by code_simp
  have h3: "durationMs (LEVELS ! 0) \<le> 20000 - 0" by code_simp
  have e: "phase (step (ClockFire 1 20000) (run initial playing_trace)) = Reward" by code_simp
  from clock_tick[OF h1 h2, of 20000] h1 h2 h3 e
  show ?thesis by simp
qed

text \<open>The claim as stated, remaining time \<open>max 0 (durationMs - elapsed)\<close>, fails: 250 ms
  into level 1 the remaining time is 20, not 19750, and not 19.75 seconds either.\<close>

theorem clock_tick_counterexample:
  "timeLeft (run initial [PressStart 0, ClockFire 1 250]) = 20 \<and>
   max 0 (durationMs (LEVELS ! 0) - (250 - 0)) = 19750 \<and>
   timeLeft (run initial [PressStart 0, ClockFire 1 250]) \<noteq>
     max 0 (durationMs (LEVELS ! 0) - (250 - 0)) \<and>
   timeLeft (run initial [PressStart 0, ClockFire 1 250]) * 1000 \<noteq>
     max 0 (durationMs (LEVELS ! 0) - (250 - 0))"
  by code_simp

subsection \<open>C7: taps\<close>

text \<open>
  Claim C7: a tap on an id that is on the list takes every heart with that id off the
  list and adds exactly 1 to the score; a tap on an id that is not on the list changes
  nothing of the session (the tap's haptic call has been made) and there is no failing
  branch; so a second tap on the same id adds nothing.
\<close>

theorem tap_scores_once:
  "(i \<in> hid ` set (hearts s) \<longrightarrow>
      score (onTapHeart i s) = score s + 1 \<and>
      hearts (onTapHeart i s) = filter (\<lambda>x. hid x \<noteq> i) (hearts s) \<and>
      i \<notin> hid ` set (hearts (onTapHeart i s)) \<and>
      score (onTapHeart i (onTapHeart i s)) = score s + 1) \<and>
   (i \<notin> hid ` set (hearts s) \<longrightarrow>
      onTapHeart i s = s\<lparr>softHaptics := softHaptics s + 1\<rparr>)"
proof (intro conjI impI)
  assume p: "i \<in> hid ` set (hearts s)"
  then obtain h where h: "find (\<lambda>x. hid x = i) (hearts s) = Some h"
    using present_find by blast
  show 1: "score (onTapHeart i s) = score s + 1"
    by (simp add: onTapHeart_present[OF h])
  show 2: "hearts (onTapHeart i s) = filter (\<lambda>x. hid x \<noteq> i) (hearts s)"
    by (simp add: onTapHeart_present[OF h])
  show 3: "i \<notin> hid ` set (hearts (onTapHeart i s))"
    by (auto simp: 2)
  show "score (onTapHeart i (onTapHeart i s)) = score s + 1"
    by (simp add: onTapHeart_absent[OF 3] 1)
next
  assume "i \<notin> hid ` set (hearts s)"
  then show "onTapHeart i s = s\<lparr>softHaptics := softHaptics s + 1\<rparr>"
    by (rule onTapHeart_absent)
qed

theorem tap_scores_once_witness:
  "''h2'' \<in> hid ` set (hearts (run initial playing_trace)) \<and>
   ''h1'' \<notin> hid ` set (hearts (run initial playing_trace)) \<and>
   score (run initial playing_trace) = 1 \<and>
   score (onTapHeart ''h2'' (run initial playing_trace)) = 2 \<and>
   hearts (onTapHeart ''h2'' (run initial playing_trace)) = [] \<and>
   score (onTapHeart ''h2'' (onTapHeart ''h2'' (run initial playing_trace))) = 2 \<and>
   score (onTapHeart ''h1'' (run initial playing_trace)) = 1 \<and>
   hearts (onTapHeart ''h1'' (run initial playing_trace)) = hearts (run initial playing_trace)"
proof -
  have m: "map hid (hearts (run initial playing_trace)) = [''h2'']" by code_simp
  have "hid ` set (hearts (run initial playing_trace)) =
        set (map hid (hearts (run initial playing_trace)))" by simp
  then have s: "hid ` set (hearts (run initial playing_trace)) = {''h2''}"
    unfolding m by simp
  have h2: "''h2'' \<in> hid ` set (hearts (run initial playing_trace))"
    unfolding s by simp
  have h1: "''h1'' \<notin> hid ` set (hearts (run initial playing_trace))"
    unfolding s by simp
  have e: "score (run initial playing_trace) = 1 \<and>
           filter (\<lambda>x. hid x \<noteq> ''h2'') (hearts (run initial playing_trace)) = []"
    by code_simp
  from tap_scores_once[of "''h2''" "run initial playing_trace"]
       tap_scores_once[of "''h1''" "run initial playing_trace"] h1 h2 e
  show ?thesis by simp
qed

subsection \<open>C8: the pass on the last level\<close>

text \<open>
  Claim C8: let the level in play be passed, that is, the score of the attempt has
  reached its target. If the level is the last of the catalog
  (\<open>levelIndex = length LEVELS - 1\<close>), its resolution leads to the end-of-game view
  \<^verbatim>\<open>proposal\<close>: at once when the \<^verbatim>\<open>endLevel\<close> that resolves it holds a score that
  has reached the target (always so for "Finish"), and otherwise (the countdown, with
  the score captured at the start) through the reward screen, where "Open Surprise" is
  the one button that goes on, and it sets \<^verbatim>\<open>proposal\<close>; "Next Level" and "Retry" are
  not there. If the level is not the last, the resolution leads to the reward screen,
  where "Next Level" starts the level after it; "Open Surprise" and "Retry" are not
  there. "Finish" and the countdown that has run out are such resolutions, and the
  countdown of a state the session can reach is the one of the level in play.
\<close>

theorem final_pass_distinct:
  assumes "level_at (levelIndex s) = Some lv" and "target lv \<le> score s"
  shows "(levelIndex s = int (length LEVELS) - 1 \<longrightarrow>
            (target lv \<le> sc \<longrightarrow> phase (resolved sc s) = Proposal) \<and>
            (sc < target lv \<longrightarrow>
               phase (resolved sc s) = Reward \<and>
               step PressOpen (resolved sc s) = (resolved sc s)\<lparr>phase := Proposal\<rparr> \<and>
               step (PressNext t) (resolved sc s) = resolved sc s \<and>
               step (PressRetry t) (resolved sc s) = resolved sc s)) \<and>
         (levelIndex s \<noteq> int (length LEVELS) - 1 \<longrightarrow>
            phase (resolved sc s) = Reward \<and>
            step PressOpen (resolved sc s) = resolved sc s \<and>
            step (PressRetry t) (resolved sc s) = resolved sc s \<and>
            step (PressNext t) (resolved sc s) =
              snd (startLevel (levelIndex s + 1) t (resolved sc s)) \<and>
            phase (step (PressNext t) (resolved sc s)) = Playing \<and>
            levelIndex (step (PressNext t) (resolved sc s)) = levelIndex s + 1) \<and>
         (phase s = Playing \<longrightarrow> step PressFinish s = resolved (score s) s) \<and>
         (\<forall>h d st c now.
            intervals s h = Some (d, TickCb (levelIndex s) st c) \<and> durationMs lv \<le> now - st
            \<longrightarrow> step (ClockFire h now) s = resolved c (s\<lparr>timeLeft := 0\<rparr>)) \<and>
         (\<forall>evs h d i st c. intervals (run initial evs) h = Some (d, TickCb i st c)
            \<longrightarrow> levelIndex (run initial evs) = i)"
  using resolved_final[OF assms, of sc t] resolved_not_final[OF assms, of sc t]
        finish_resolved[of s] expiry_resolved[OF assms(1)] tick_of_level
  by blast

text \<open>After \<open>late_pass_trace\<close> level 3, the last, is in play with the score 26, its
  target; the countdown holds the score 22. When it runs out the reward screen is shown,
  and "Open Surprise" sets \<^verbatim>\<open>proposal\<close>; "Finish" sets it at once. After the first 37
  events level 1 is in play with the score 18, its target: "Finish" shows the reward
  screen, where "Next Level" starts level 2.\<close>

theorem final_pass_distinct_witness:
  "levelIndex (run initial late_pass_trace) = 2 \<and>
   level_at 2 = Some (LEVELS ! 2) \<and> 2 = int (length LEVELS) - 1 \<and>
   score (run initial late_pass_trace) = 26 \<and> target (LEVELS ! 2) \<le> 26 \<and>
   intervals (run initial late_pass_trace) 7 = Some (250, TickCb 2 60000 22) \<and>
   durationMs (LEVELS ! 2) \<le> 82000 - 60000 \<and>
   phase (step (ClockFire 7 82000) (run initial late_pass_trace)) = Reward \<and>
   phase (step PressOpen (step (ClockFire 7 82000) (run initial late_pass_trace))) = Proposal \<and>
   step (PressNext 90000) (step (ClockFire 7 82000) (run initial late_pass_trace)) =
     step (ClockFire 7 82000) (run initial late_pass_trace) \<and>
   phase (step PressFinish (run initial late_pass_trace)) = Proposal \<and>
   levelIndex (run initial (take 37 late_pass_trace)) = 0 \<and>
   score (run initial (take 37 late_pass_trace)) = 18 \<and>
   phase (step PressFinish (run initial (take 37 late_pass_trace))) = Reward \<and>
   step PressOpen (step PressFinish (run initial (take 37 late_pass_trace))) =
     step PressFinish (run initial (take 37 late_pass_trace)) \<and>
   phase (step (PressNext 30000) (step PressFinish (run initial (take 37 late_pass_trace)))) =
     Playing \<and>
   levelIndex (step (PressNext 30000) (step PressFinish (run initial (take 37 late_pass_trace))))
     = 1"
proof -
  define s where "s = run initial late_pass_trace"
  define s1 where "s1 = run initial (take 37 late_pass_trace)"
  have a: "levelIndex s = 2" "level_at 2 = Some (LEVELS ! 2)" "2 = int (length LEVELS) - 1"
          "score s = 26" "target (LEVELS ! 2) \<le> 26" "(22::int) < target (LEVELS ! 2)"
          "intervals s 7 = Some (250, TickCb 2 60000 22)"
          "durationMs (LEVELS ! 2) \<le> 82000 - 60000" "phase s = Playing"
    unfolding s_def by code_simp+
  have b: "levelIndex s1 = 0" "level_at 0 = Some (LEVELS ! 0)" "0 \<noteq> int (length LEVELS) - 1"
          "score s1 = 18" "target (LEVELS ! 0) \<le> 18" "phase s1 = Playing"
    unfolding s1_def by code_simp+
  have l0: "level_at (levelIndex (s\<lparr>timeLeft := 0\<rparr>)) = Some (LEVELS ! 2)"
    and t0: "target (LEVELS ! 2) \<le> score (s\<lparr>timeLeft := 0\<rparr>)"
    using a by simp_all
  have l: "level_at (levelIndex s) = Some (LEVELS ! 2)"
    and t: "target (LEVELS ! 2) \<le> score s"
    using a by simp_all
  have l1: "level_at (levelIndex s1) = Some (LEVELS ! 0)"
    and t1: "target (LEVELS ! 0) \<le> score s1"
    using b by simp_all
  note f0 = final_pass_distinct[OF l0 t0, of 22 90000]
  note f = final_pass_distinct[OF l t, of 26 90000]
  note f1 = final_pass_distinct[OF l1 t1, of 18 30000]
  have q: "\<forall>h d st c now.
            intervals s h = Some (d, TickCb (levelIndex s) st c) \<and>
            durationMs (LEVELS ! 2) \<le> now - st
            \<longrightarrow> step (ClockFire h now) s = resolved c (s\<lparr>timeLeft := 0\<rparr>)"
    using f by blast
  have "intervals s 7 = Some (250, TickCb (levelIndex s) 60000 22) \<and>
        durationMs (LEVELS ! 2) \<le> 82000 - 60000"
    using a by simp
  with q have cf: "step (ClockFire 7 82000) s = resolved 22 (s\<lparr>timeLeft := 0\<rparr>)"
    by blast
  have ff: "step PressFinish s = resolved 26 s"
    using f a(4,9) by (metis)
  have ff1: "step PressFinish s1 = resolved 18 s1"
    using f1 b(4,6) by (metis)
  have fin: "levelIndex (s\<lparr>timeLeft := 0\<rparr>) = int (length LEVELS) - 1"
            "levelIndex s = int (length LEVELS) - 1"
            "levelIndex s1 \<noteq> int (length LEVELS) - 1"
    using a b by simp_all
  have "phase (resolved 22 (s\<lparr>timeLeft := 0\<rparr>)) = Reward \<and>
        step PressOpen (resolved 22 (s\<lparr>timeLeft := 0\<rparr>)) =
          (resolved 22 (s\<lparr>timeLeft := 0\<rparr>))\<lparr>phase := Proposal\<rparr> \<and>
        step (PressNext 90000) (resolved 22 (s\<lparr>timeLeft := 0\<rparr>)) = resolved 22 (s\<lparr>timeLeft := 0\<rparr>)"
    using f0 fin(1) a(6) by blast
  then have r0: "phase (resolved 22 (s\<lparr>timeLeft := 0\<rparr>)) = Reward \<and>
        phase (step PressOpen (resolved 22 (s\<lparr>timeLeft := 0\<rparr>))) = Proposal \<and>
        step (PressNext 90000) (resolved 22 (s\<lparr>timeLeft := 0\<rparr>)) = resolved 22 (s\<lparr>timeLeft := 0\<rparr>)"
    by (simp del: step.simps)
  have r: "phase (resolved 26 s) = Proposal"
    using f fin(2) a(5) by blast
  have "phase (resolved 18 s1) = Reward \<and>
        step PressOpen (resolved 18 s1) = resolved 18 s1 \<and>
        phase (step (PressNext 30000) (resolved 18 s1)) = Playing \<and>
        levelIndex (step (PressNext 30000) (resolved 18 s1)) = levelIndex s1 + 1"
    using f1 fin(3) by blast
  then have r1: "phase (resolved 18 s1) = Reward \<and>
        step PressOpen (resolved 18 s1) = resolved 18 s1 \<and>
        phase (step (PressNext 30000) (resolved 18 s1)) = Playing \<and>
        levelIndex (step (PressNext 30000) (resolved 18 s1)) = 1"
    using b(1) by (simp del: step.simps)
  show ?thesis
    unfolding s1_def[symmetric] s_def[symmetric]
    using r0[folded cf] r[folded ff] r1[folded ff1] a b
    by (simp del: step.simps)
qed

subsection \<open>C9: score and remaining time while a level is played\<close>




subsection \<open>C10: quitting a level\<close>

text \<open>
  Claim C10: "Quit" during a level clears both timers, stops the animation of every
  heart on the list and empties the list, and goes to the intro screen; the score, the
  level index and the remaining time stay as they were. The score is reset by the next
  \<^verbatim>\<open>startLevel\<close>.
\<close>

theorem quit_frame:
  assumes "phase s = Playing"
  shows "phase (step PressQuit s) = Intro \<and>
         score (step PressQuit s) = score s \<and>
         levelIndex (step PressQuit s) = levelIndex s \<and>
         timeLeft (step PressQuit s) = timeLeft s \<and>
         tickTimer (step PressQuit s) = None \<and> spawnTimer (step PressQuit s) = None \<and>
         (\<forall>h. tickTimer s = Some h \<or> spawnTimer s = Some h \<longrightarrow>
            intervals (step PressQuit s) h = None) \<and>
         hearts (step PressQuit s) = [] \<and>
         (\<forall>h \<in> set (hearts s). \<forall>an. anims (step PressQuit s) (hanim h) = Some an \<longrightarrow>
            a_status an \<noteq> Running) \<and>
         score (step (PressStart now) (step PressQuit s)) = 0"
proof -
  have q: "step PressQuit s = quit s" using assms by simp
  have "phase (quit s) = Intro" by (simp add: quit_def)
  then have "step (PressStart now) (quit s) = snd (startLevel 0 now (quit s))" by simp
  moreover have "score (snd (startLevel 0 now (quit s))) = 0"
    by (cases "level_at 0")
       (simp_all add: startLevel_def clearHearts_eq clearTimers_eq setInterval_def Let_def)
  ultimately have "score (step (PressStart now) (quit s)) = 0" by simp
  then show ?thesis
    unfolding q
    using hearts_stopped[of "hearts s" "anims s"]
    by (simp add: quit_def clearHearts_eq clearTimers_eq dropTimers_def)
qed

theorem quit_frame_witness:
  "phase (run initial playing_trace) = Playing \<and>
   score (run initial playing_trace) = 1 \<and>
   tickTimer (run initial playing_trace) = Some 1 \<and>
   map hid (hearts (run initial playing_trace)) = [''h2''] \<and>
   phase (step PressQuit (run initial playing_trace)) = Intro \<and>
   score (step PressQuit (run initial playing_trace)) = 1 \<and>
   levelIndex (step PressQuit (run initial playing_trace)) = 0 \<and>
   tickTimer (step PressQuit (run initial playing_trace)) = None \<and>
   spawnTimer (step PressQuit (run initial playing_trace)) = None \<and>
   intervals (step PressQuit (run initial playing_trace)) 1 = None \<and>
   hearts (step PressQuit (run initial playing_trace)) = [] \<and>
   score (step (PressStart 900) (step PressQuit (run initial playing_trace))) = 0"
proof -
  have h: "phase (run initial playing_trace) = Playing" by code_simp
  have e: "score (run initial playing_trace) = 1"
          "levelIndex (run initial playing_trace) = 0"
          "tickTimer (run initial playing_trace) = Some 1"
          "map hid (hearts (run initial playing_trace)) = [''h2'']"
    by code_simp+
  from quit_frame[OF h, of 900] h e
  show ?thesis by (simp del: step.simps)
qed

end
